theory Spec2Isabelle
  imports Main
begin

section \<open>Strings and paths\<close>

text \<open>
  Python strings are modelled as \<open>string\<close> (lists of characters). The three tests the
  program makes on characters (\<open>:\<close>, \<open>/\<close>, \<open>\\<close>, \<open>.\<close> and the ASCII letters of
  \<open>.pdf\<close>) are on ASCII characters, so UTF-8 bytes and code points agree on them.
\<close>

definition lower_char :: "char \<Rightarrow> char" where
  "lower_char c =
     (let n = (of_char c :: nat) in if 65 \<le> n \<and> n \<le> 90 then char_of (n + 32) else c)"

definition py_lower :: "string \<Rightarrow> string" where
  "py_lower s = map lower_char s"

definition endswith :: "string \<Rightarrow> string \<Rightarrow> bool" where
  "endswith s suf = (length suf \<le> length s \<and> drop (length s - length suf) s = suf)"

text \<open>The test \<open>file.lower().endswith('.pdf')\<close> of the scanner and of \<open>has_pdf_files\<close>.\<close>

definition is_pdf :: "string \<Rightarrow> bool" where
  "is_pdf file = endswith (py_lower file) ''.pdf''"

text \<open>
  \<open>os.path\<close> in its POSIX form (\<open>posixpath\<close>): \<open>basename\<close> is what follows the last
  \<open>/\<close>; \<open>dirname\<close> is what precedes it, with trailing slashes stripped unless the head
  consists of slashes only.
\<close>

definition basename :: "string \<Rightarrow> string" where
  "basename p = rev (takeWhile (\<lambda>c. c \<noteq> CHR ''/'') (rev p))"

definition rstrip_sep :: "string \<Rightarrow> string" where
  "rstrip_sep s = rev (dropWhile (\<lambda>c. c = CHR ''/'') (rev s))"

definition dirname :: "string \<Rightarrow> string" where
  "dirname p =
     (let head = rev (dropWhile (\<lambda>c. c \<noteq> CHR ''/'') (rev p))
      in if head \<noteq> [] \<and> head \<noteq> replicate (length head) (CHR ''/'')
         then rstrip_sep head else head)"

text \<open>The folder of an on-disk file: \<open>os.path.basename(os.path.dirname(full_path))\<close>.\<close>

definition folder_of :: "string \<Rightarrow> string" where
  "folder_of fp = basename (dirname fp)"

section \<open>Duplicate Resolver: grouping and marking\<close>

record file_info =
  full_path :: string
  folder :: string

text \<open>One record of the Database Index (the dictionaries appended in \<open>get_database_pdfs\<close>).\<close>

record db_record =
  db_folder :: string
  db_itemKey :: string
  db_path :: string
  db_itemID :: int

type_synonym db_index = "string \<rightharpoonup> db_record list"

text \<open>
  \<open>pdf_by_name\<close> is a \<open>defaultdict(list)\<close>: a dictionary that keeps its keys in the
  order of their first insertion. It is an association list here; \<open>by_name_append\<close> is
  \<open>pdf_by_name[filename].append(info)\<close>.
\<close>

fun by_name_append ::
  "string \<Rightarrow> file_info \<Rightarrow> (string \<times> file_info list) list \<Rightarrow> (string \<times> file_info list) list"
where
  "by_name_append k v [] = [(k, [v])]"
| "by_name_append k v ((k', vs) # rest) =
     (if k = k' then (k', vs @ [v]) # rest else (k', vs) # by_name_append k v rest)"

fun group_loop ::
  "(string \<times> string) list \<Rightarrow> (string \<times> file_info list) list \<Rightarrow> (string \<times> file_info list) list"
where
  "group_loop [] acc = acc"
| "group_loop ((fp, filename) # rest) acc =
     group_loop rest (by_name_append filename \<lparr>full_path = fp, folder = folder_of fp\<rparr> acc)"

definition pdf_by_name :: "(string \<times> string) list \<Rightarrow> (string \<times> file_info list) list" where
  "pdf_by_name pdf_files = group_loop pdf_files []"

definition duplicates :: "(string \<times> string) list \<Rightarrow> (string \<times> file_info list) list" where
  "duplicates pdf_files = filter (\<lambda>(name, files). length files > 1) (pdf_by_name pdf_files)"

text \<open>The body of the loop over \<open>duplicates.items()\<close>: what one group adds to \<open>files_to_delete\<close>.\<close>

definition mark_group :: "db_index \<Rightarrow> string \<times> file_info list \<Rightarrow> string list" where
  "mark_group db_files grp =
     (case grp of (filename, file_list) \<Rightarrow>
        (case db_files filename of
           Some recs \<Rightarrow>
             (let db_folders = map db_folder recs
              in map full_path (filter (\<lambda>file_info. folder file_info \<notin> set db_folders) file_list))
         | None \<Rightarrow> map full_path file_list))"

definition files_to_delete :: "(string \<times> string) list \<Rightarrow> db_index \<Rightarrow> string list" where
  "files_to_delete pdf_files db_files = concat (map (mark_group db_files) (duplicates pdf_files))"

text \<open>The number of scanned copies of a filename.\<close>

definition copies :: "(string \<times> string) list \<Rightarrow> string \<Rightarrow> nat" where
  "copies pdf_files filename = length (filter (\<lambda>pf. snd pf = filename) pdf_files)"

section \<open>Properties of grouping\<close>

definition infos_of :: "(string \<times> string) list \<Rightarrow> string \<Rightarrow> file_info list" where
  "infos_of pdf_files filename =
     map (\<lambda>pf. \<lparr>full_path = fst pf, folder = folder_of (fst pf)\<rparr>)
       (filter (\<lambda>pf. snd pf = filename) pdf_files)"

lemma by_name_append_keys:
  "fst ` set (by_name_append k v acc) = insert k (fst ` set acc)"
  by (induction k v acc rule: by_name_append.induct) auto

lemma by_name_append_distinct:
  "distinct (map fst acc) \<Longrightarrow> distinct (map fst (by_name_append k v acc))"
proof (induction k v acc rule: by_name_append.induct)
  case (1 k v)
  then show ?case by simp
next
  case (2 k v k' vs rest)
  have "fst ` set (by_name_append k v rest) = insert k (fst ` set rest)"
    by (rule by_name_append_keys)
  with 2 show ?case by auto
qed

lemma by_name_append_lookup:
  "map_of (by_name_append k v acc) k' =
     (if k' = k then Some ((case map_of acc k of None \<Rightarrow> [] | Some vs \<Rightarrow> vs) @ [v])
      else map_of acc k')"
  by (induction k v acc rule: by_name_append.induct) auto

lemma group_loop_distinct:
  "distinct (map fst acc) \<Longrightarrow> distinct (map fst (group_loop pdf_files acc))"
  by (induction pdf_files acc rule: group_loop.induct) (auto simp: by_name_append_distinct)

lemma group_loop_lookup:
  "map_of (group_loop pdf_files acc) k =
     (case map_of acc k of
        None \<Rightarrow> (if infos_of pdf_files k = [] then None else Some (infos_of pdf_files k))
      | Some vs \<Rightarrow> Some (vs @ infos_of pdf_files k))"
proof (induction pdf_files acc rule: group_loop.induct)
  case (1 acc)
  then show ?case by (simp add: infos_of_def split: option.splits)
next
  case (2 fp filename rest acc)
  then show ?case
    by (auto simp: by_name_append_lookup infos_of_def split: option.splits)
qed

lemma pdf_by_name_distinct: "distinct (map fst (pdf_by_name pdf_files))"
  by (simp add: pdf_by_name_def group_loop_distinct)

lemma pdf_by_name_lookup:
  "map_of (pdf_by_name pdf_files) k =
     (if infos_of pdf_files k = [] then None else Some (infos_of pdf_files k))"
  by (simp add: pdf_by_name_def group_loop_lookup)

lemma pdf_by_name_mem:
  "(k, vs) \<in> set (pdf_by_name pdf_files) \<longleftrightarrow> vs \<noteq> [] \<and> vs = infos_of pdf_files k"
proof -
  have "(k, vs) \<in> set (pdf_by_name pdf_files) \<longleftrightarrow> map_of (pdf_by_name pdf_files) k = Some vs"
    using pdf_by_name_distinct by (simp add: map_of_eq_Some_iff)
  then show ?thesis by (auto simp: pdf_by_name_lookup)
qed

lemma length_infos_of: "length (infos_of pdf_files k) = copies pdf_files k"
  by (simp add: infos_of_def copies_def)

lemma duplicates_mem:
  "(k, vs) \<in> set (duplicates pdf_files) \<longleftrightarrow> copies pdf_files k > 1 \<and> vs = infos_of pdf_files k"
  using length_infos_of [of pdf_files k]
  by (auto simp: duplicates_def pdf_by_name_mem)

text \<open>The condition under which the loop body appends a copy to \<open>files_to_delete\<close>.\<close>

definition to_remove :: "db_index \<Rightarrow> string \<Rightarrow> string \<Rightarrow> bool" where
  "to_remove db_files filename fp =
     (case db_files filename of
        None \<Rightarrow> True
      | Some recs \<Rightarrow> folder_of fp \<notin> set (map db_folder recs))"

lemma mark_group_mem:
  "p \<in> set (mark_group db_files (k, infos_of pdf_files k)) \<longleftrightarrow>
     (p, k) \<in> set pdf_files \<and> to_remove db_files k p"
  by (force simp: mark_group_def infos_of_def to_remove_def image_iff split: option.splits)

lemma files_to_delete_mem:
  "p \<in> set (files_to_delete pdf_files db_files) \<longleftrightarrow>
     (\<exists>k. (p, k) \<in> set pdf_files \<and> copies pdf_files k > 1 \<and> to_remove db_files k p)"
proof
  assume "p \<in> set (files_to_delete pdf_files db_files)"
  then obtain k vs where g: "(k, vs) \<in> set (duplicates pdf_files)"
    and p: "p \<in> set (mark_group db_files (k, vs))"
    by (auto simp: files_to_delete_def)
  from g have "copies pdf_files k > 1" and "vs = infos_of pdf_files k"
    by (simp_all add: duplicates_mem)
  with p show "\<exists>k. (p, k) \<in> set pdf_files \<and> copies pdf_files k > 1 \<and> to_remove db_files k p"
    by (auto simp: mark_group_mem)
next
  assume "\<exists>k. (p, k) \<in> set pdf_files \<and> copies pdf_files k > 1 \<and> to_remove db_files k p"
  then obtain k where k: "(p, k) \<in> set pdf_files" "copies pdf_files k > 1" "to_remove db_files k p"
    by blast
  then have "(k, infos_of pdf_files k) \<in> set (duplicates pdf_files)"
    by (simp add: duplicates_mem)
  moreover from k have "p \<in> set (mark_group db_files (k, infos_of pdf_files k))"
    by (simp add: mark_group_mem)
  ultimately show "p \<in> set (files_to_delete pdf_files db_files)"
    unfolding files_to_delete_def set_concat set_map by blast
qed

section \<open>The duplicate resolution rule\<close>

text \<open>
  Claim C1. Let a scan list name every path once. For a filename with more than one
  scanned copy: if the filename is a key of the Database Index, a copy is kept (not put on
  \<open>files_to_delete\<close>) exactly when its folder is among the folders recorded for the
  filename, and is marked for removal otherwise; if the filename is not a key, every copy
  is marked for removal. So a kept copy's folder is a recorded folder and a removed
  copy's folder is not.
\<close>

theorem C1_duplicate_resolution_rule:
  assumes "distinct (map fst pdf_files)"
    and "(p, k) \<in> set pdf_files"
    and "copies pdf_files k > 1"
  shows "(case db_files k of
            Some recs \<Rightarrow>
              (p \<notin> set (files_to_delete pdf_files db_files) \<longleftrightarrow>
                 folder_of p \<in> set (map db_folder recs))
          | None \<Rightarrow> p \<in> set (files_to_delete pdf_files db_files))"
proof -
  have uniq: "k' = k" if "(p, k') \<in> set pdf_files" for k'
  proof -
    have "map_of pdf_files p = Some k" using assms(1,2) by (rule map_of_is_SomeI)
    moreover have "map_of pdf_files p = Some k'" using assms(1) that by (rule map_of_is_SomeI)
    ultimately show ?thesis by simp
  qed
  have "p \<in> set (files_to_delete pdf_files db_files) \<longleftrightarrow> to_remove db_files k p"
  proof
    assume "p \<in> set (files_to_delete pdf_files db_files)"
    then obtain k' where "(p, k') \<in> set pdf_files" and "to_remove db_files k' p"
      unfolding files_to_delete_mem by blast
    then show "to_remove db_files k p" using uniq [of k'] by simp
  next
    assume "to_remove db_files k p"
    with assms(2,3) show "p \<in> set (files_to_delete pdf_files db_files)"
      unfolding files_to_delete_mem by blast
  qed
  then show ?thesis
    by (simp add: to_remove_def split: option.splits)
qed

text \<open>
  The scenario of the specification: \<open>a.pdf\<close> is recorded under \<open>AB12CD\<close> and lies in
  \<open>AB12CD\<close> and \<open>XY99ZZ\<close>; \<open>g.pdf\<close> lies in two folders and is unknown to the database;
  \<open>u.pdf\<close> is a single unknown file; \<open>m.pdf\<close> is a single file recorded under another folder.
\<close>

definition ex_pdfs :: "(string \<times> string) list" where
  "ex_pdfs = [(''/s/AB12CD/a.pdf'', ''a.pdf''), (''/s/XY99ZZ/a.pdf'', ''a.pdf''),
              (''/s/K1/g.pdf'', ''g.pdf''), (''/s/K2/g.pdf'', ''g.pdf''), (''/s/K3/u.pdf'', ''u.pdf''),
              (''/s/ZZ/m.pdf'', ''m.pdf'')]"

definition ex_db :: db_index where
  "ex_db = [''a.pdf'' \<mapsto> [\<lparr>db_folder = ''AB12CD'', db_itemKey = ''AB12CD'',
                             db_path = ''storage:a.pdf'', db_itemID = 7\<rparr>],
            ''m.pdf'' \<mapsto> [\<lparr>db_folder = ''MM'', db_itemKey = ''MM'',
                             db_path = ''storage:m.pdf'', db_itemID = 8\<rparr>]]"

theorem C1_witness:
  "''/s/XY99ZZ/a.pdf'' \<in> set (files_to_delete ex_pdfs ex_db) \<and>
   ''/s/AB12CD/a.pdf'' \<notin> set (files_to_delete ex_pdfs ex_db) \<and>
   ''/s/K1/g.pdf'' \<in> set (files_to_delete ex_pdfs ex_db)"
proof -
  have d: "distinct (map fst ex_pdfs)" by (simp add: ex_pdfs_def)
  have c: "copies ex_pdfs ''a.pdf'' > 1" "copies ex_pdfs ''g.pdf'' > 1"
    by (simp_all add: copies_def ex_pdfs_def)
  have m: "(''/s/XY99ZZ/a.pdf'', ''a.pdf'') \<in> set ex_pdfs"
    "(''/s/AB12CD/a.pdf'', ''a.pdf'') \<in> set ex_pdfs"
    "(''/s/K1/g.pdf'', ''g.pdf'') \<in> set ex_pdfs"
    by (simp_all add: ex_pdfs_def)
  have f: "folder_of ''/s/XY99ZZ/a.pdf'' = ''XY99ZZ''" "folder_of ''/s/AB12CD/a.pdf'' = ''AB12CD''"
    by (simp_all add: folder_of_def basename_def dirname_def rstrip_sep_def)
  have a: "ex_db ''a.pdf'' = Some [\<lparr>db_folder = ''AB12CD'', db_itemKey = ''AB12CD'',
                             db_path = ''storage:a.pdf'', db_itemID = 7\<rparr>]"
    by (simp add: ex_db_def)
  have g: "ex_db ''g.pdf'' = None"
    by (simp add: ex_db_def)
  have "''/s/XY99ZZ/a.pdf'' \<in> set (files_to_delete ex_pdfs ex_db)"
    using C1_duplicate_resolution_rule [OF d m(1) c(1), of ex_db] by (simp add: a f)
  moreover have "''/s/AB12CD/a.pdf'' \<notin> set (files_to_delete ex_pdfs ex_db)"
    using C1_duplicate_resolution_rule [OF d m(2) c(1), of ex_db] by (simp add: a f)
  moreover have "''/s/K1/g.pdf'' \<in> set (files_to_delete ex_pdfs ex_db)"
    using C1_duplicate_resolution_rule [OF d m(3) c(2), of ex_db] by (simp add: g)
  ultimately show ?thesis by simp
qed

section \<open>The disk seen by the resolvers\<close>

text \<open>
  The resolvers see the file system through \<open>os.path.exists\<close> and \<open>shutil.move\<close>. The
  disk is the finite list of the regular files, each path with its data, and the paths whose
  relocation the system refuses (permission denied, file in use). \<open>shutil.move\<close> raises when the
  source is missing or refused; otherwise the data is found under the destination and no
  longer under the source.
\<close>

datatype os_error = FileNotFoundError | PermissionError | NotADirectoryError | DirectoryNotEmpty

record disk =
  entries :: "(string \<times> string) list"
  locked :: "string list"

definition os_path_exists :: "disk \<Rightarrow> string \<Rightarrow> bool" where
  "os_path_exists d p = (p \<in> fst ` set (entries d))"

definition shutil_move :: "disk \<Rightarrow> string \<Rightarrow> string \<Rightarrow> os_error + disk" where
  "shutil_move d src dst =
     (case map_of (entries d) src of
        None \<Rightarrow> Inl FileNotFoundError
      | Some data \<Rightarrow>
          if src \<in> set (locked d) then Inl PermissionError
          else Inr (d\<lparr>entries :=
                 (dst, data) # filter (\<lambda>e. fst e \<noteq> src \<and> fst e \<noteq> dst) (entries d)\<rparr>))"

text \<open>\<open>os.path.join\<close> and \<open>os.path.splitext\<close> of \<open>posixpath\<close>, and \<open>str\<close> on a counter.\<close>

definition join :: "string \<Rightarrow> string \<Rightarrow> string" where
  "join a b =
     (if b \<noteq> [] \<and> hd b = CHR ''/'' then b
      else if a = [] \<or> last a = CHR ''/'' then a @ b
      else a @ ''/'' @ b)"

definition rfind :: "char \<Rightarrow> string \<Rightarrow> int" where
  "rfind c s =
     (if c \<in> set s then int (length s) - 1 - int (length (takeWhile (\<lambda>x. x \<noteq> c) (rev s)))
      else - 1)"

definition splitext :: "string \<Rightarrow> string \<times> string" where
  "splitext p =
     (let sepIndex = rfind (CHR ''/'') p; dotIndex = rfind (CHR ''.'') p
      in if dotIndex > sepIndex \<and>
            list_ex (\<lambda>c. c \<noteq> CHR ''.'')
              (take (nat (dotIndex - (sepIndex + 1))) (drop (nat (sepIndex + 1)) p))
         then (take (nat dotIndex) p, drop (nat dotIndex) p)
         else (p, []))"

definition digit_char :: "nat \<Rightarrow> char" where
  "digit_char n = char_of (48 + n)"

fun str_nat :: "nat \<Rightarrow> string" where
  "str_nat n = (if n < 10 then [digit_char n] else str_nat (n div 10) @ [digit_char (n mod 10)])"

declare str_nat.simps [simp del]

definition suffixed :: "string \<Rightarrow> string \<Rightarrow> nat \<Rightarrow> string" where
  "suffixed back_dir dest_filename counter =
     (case splitext dest_filename of
        (base, ext) \<Rightarrow> join back_dir (base @ ''_'' @ str_nat counter @ ext))"

lemma digit_char_inj: "m < 10 \<Longrightarrow> n < 10 \<Longrightarrow> digit_char m = digit_char n \<Longrightarrow> m = n"
proof -
  assume m: "m < 10" and n: "n < 10" and e: "digit_char m = digit_char n"
  from e have "(of_char (char_of (48 + m)) :: nat) = of_char (char_of (48 + n))"
    by (simp add: digit_char_def)
  then have "(48 + m) mod 256 = (48 + n) mod 256"
    by (simp only: of_char_of)
  with m n show "m = n" by simp
qed

lemma str_nat_nonempty: "str_nat n \<noteq> []"
  by (subst str_nat.simps) simp

lemma str_nat_inj: "str_nat m = str_nat n \<Longrightarrow> m = n"
proof (induction m arbitrary: n rule: str_nat.induct)
  case (1 m)
  show ?case
  proof (cases "m < 10")
    case True
    then have m: "str_nat m = [digit_char m]" by (subst str_nat.simps) simp
    show ?thesis
    proof (cases "n < 10")
      case True
      then have "str_nat n = [digit_char n]" by (subst str_nat.simps) simp
      with m 1(2) \<open>m < 10\<close> True show ?thesis by (auto dest: digit_char_inj)
    next
      case False
      then have "str_nat n = str_nat (n div 10) @ [digit_char (n mod 10)]"
        by (subst str_nat.simps) simp
      with m 1(2) have "str_nat (n div 10) = []" by simp
      then show ?thesis by (simp add: str_nat_nonempty)
    qed
  next
    case False
    then have m: "str_nat m = str_nat (m div 10) @ [digit_char (m mod 10)]"
      by (subst str_nat.simps) simp
    show ?thesis
    proof (cases "n < 10")
      case True
      then have "str_nat n = [digit_char n]" by (subst str_nat.simps) simp
      with m 1(2) have "str_nat (m div 10) = []" by simp
      then show ?thesis by (simp add: str_nat_nonempty)
    next
      case nf: False
      then have "str_nat n = str_nat (n div 10) @ [digit_char (n mod 10)]"
        by (subst str_nat.simps) simp
      with m 1(2) have a: "str_nat (m div 10) = str_nat (n div 10)"
        and b: "digit_char (m mod 10) = digit_char (n mod 10)" by simp_all
      from 1(1) [OF False a] have "m div 10 = n div 10" .
      moreover from b have "m mod 10 = n mod 10" by (intro digit_char_inj) simp_all
      ultimately show ?thesis by (metis div_mult_mod_eq)
    qed
  qed
qed

lemma join_inj:
  assumes "join a (b @ x) = join a (b @ y)" and "b \<noteq> []"
  shows "x = y"
proof -
  have h: "hd (b @ x) = hd (b @ y)" "b @ x \<noteq> []" "b @ y \<noteq> []"
    using assms(2) by simp_all
  show ?thesis
    using assms(1) h unfolding join_def by (simp split: if_splits)
qed

lemma suffixed_inj: "suffixed back_dir dest_filename j = suffixed back_dir dest_filename k \<Longrightarrow> j = k"
proof -
  assume e: "suffixed back_dir dest_filename j = suffixed back_dir dest_filename k"
  obtain base ext where s: "splitext dest_filename = (base, ext)" by (cases "splitext dest_filename")
  from e s have "join back_dir ((base @ ''_'') @ (str_nat j @ ext)) =
      join back_dir ((base @ ''_'') @ (str_nat k @ ext))"
    by (simp add: suffixed_def)
  then have "str_nat j @ ext = str_nat k @ ext"
    by (rule join_inj) simp
  then show "j = k" by (simp add: str_nat_inj)
qed

text \<open>
  The loop \<open>while os.path.exists(dest_path)\<close> (lines 231-235 and 288-292). It ends because
  the suffixed names are pairwise different and the disk is finite.
\<close>

definition taken_from :: "disk \<Rightarrow> string \<Rightarrow> string \<Rightarrow> nat \<Rightarrow> nat set" where
  "taken_from d back_dir dest_filename counter =
     {j. counter \<le> j \<and> os_path_exists d (suffixed back_dir dest_filename j)}"

lemma finite_taken_from: "finite (taken_from d back_dir dest_filename counter)"
proof -
  have "taken_from d back_dir dest_filename counter
          \<subseteq> suffixed back_dir dest_filename -` (fst ` set (entries d))"
    by (auto simp: taken_from_def os_path_exists_def)
  moreover have "finite (suffixed back_dir dest_filename -` (fst ` set (entries d)))"
    by (rule finite_vimageI) (auto intro!: injI dest: suffixed_inj)
  ultimately show ?thesis by (rule finite_subset)
qed

lemma taken_from_Suc:
  "taken_from d back_dir dest_filename (Suc counter) =
     taken_from d back_dir dest_filename counter - {counter}"
  by (auto simp: taken_from_def)

lemma card_taken_from_Suc:
  "os_path_exists d (suffixed back_dir dest_filename counter) \<Longrightarrow>
     card (taken_from d back_dir dest_filename (Suc counter))
       < card (taken_from d back_dir dest_filename counter)"
  unfolding taken_from_Suc
  by (rule card_Diff1_less) (simp_all add: finite_taken_from, simp add: taken_from_def)

lemma card_taken_from_Suc_le:
  "card (taken_from d back_dir dest_filename (Suc counter))
       \<le> card (taken_from d back_dir dest_filename counter)"
  unfolding taken_from_Suc
  by (rule card_mono) (simp_all add: finite_taken_from)

function dest_loop :: "disk \<Rightarrow> string \<Rightarrow> string \<Rightarrow> string \<Rightarrow> nat \<Rightarrow> string" where
  "dest_loop d back_dir dest_filename dest_path counter =
     (if os_path_exists d dest_path
      then (case splitext dest_filename of
              (base, ext) \<Rightarrow>
                dest_loop d back_dir dest_filename
                  (join back_dir (base @ ''_'' @ str_nat counter @ ext)) (counter + 1))
      else dest_path)"
  by pat_completeness auto
termination
proof (relation "measure (\<lambda>(d, back_dir, dest_filename, dest_path, counter).
    2 * card (taken_from d back_dir dest_filename counter)
      + (if os_path_exists d dest_path then 1 else 0))", goal_cases)
  case 1
  show ?case by simp
next
  case (2 d back_dir dest_filename dest_path counter base ext)
  have s: "join back_dir (base @ ''_'' @ str_nat counter @ ext)
      = suffixed back_dir dest_filename counter"
    using 2(2) [symmetric] by (simp add: suffixed_def)
  then have s: "join back_dir (base @ CHR ''_'' # str_nat counter @ ext)
      = suffixed back_dir dest_filename counter"
    by simp
  show ?case
  proof (cases "os_path_exists d (suffixed back_dir dest_filename counter)")
    case True
    from card_taken_from_Suc [OF True] 2(1) True show ?thesis
      by (simp add: s)
  next
    case False
    with card_taken_from_Suc_le [of d back_dir dest_filename counter] 2(1) show ?thesis
      by (simp add: s)
  qed
qed

declare dest_loop.simps [simp del]

lemma dest_loop_free: "\<not> os_path_exists d (dest_loop d back_dir dest_filename dest_path counter)"
proof (induction d back_dir dest_filename dest_path counter rule: dest_loop.induct)
  case (1 d back_dir dest_filename dest_path counter)
  show ?case
  proof (cases "os_path_exists d dest_path")
    case True
    obtain base ext where s: "splitext dest_filename = (base, ext)"
      by (cases "splitext dest_filename")
    from 1 [OF True s [symmetric]] True s show ?thesis
      by (subst dest_loop.simps) simp
  next
    case False
    then show ?thesis by (subst dest_loop.simps) simp
  qed
qed

lemma dest_loop_unused: "\<not> os_path_exists d dest_path \<Longrightarrow>
    dest_loop d back_dir dest_filename dest_path counter = dest_path"
  by (subst dest_loop.simps) simp

lemma dest_loop_step: "os_path_exists d dest_path \<Longrightarrow>
    dest_loop d back_dir dest_filename dest_path counter =
      dest_loop d back_dir dest_filename (suffixed back_dir dest_filename counter) (Suc counter)"
  by (subst dest_loop.simps) (simp add: suffixed_def split: prod.splits)

lemma dest_loop_first_free:
  "os_path_exists d dest_path \<Longrightarrow>
     \<exists>k\<ge>counter. dest_loop d back_dir dest_filename dest_path counter
                    = suffixed back_dir dest_filename k \<and>
       \<not> os_path_exists d (suffixed back_dir dest_filename k) \<and>
       (\<forall>j. counter \<le> j \<and> j < k \<longrightarrow> os_path_exists d (suffixed back_dir dest_filename j))"
proof (induction d back_dir dest_filename dest_path counter rule: dest_loop.induct)
  case (1 d back_dir dest_filename dest_path counter)
  obtain base ext where s: "splitext dest_filename = (base, ext)"
    by (cases "splitext dest_filename")
  have j: "join back_dir (base @ ''_'' @ str_nat counter @ ext)
      = suffixed back_dir dest_filename counter"
    using s by (simp add: suffixed_def)
  note step = dest_loop_step [OF 1(2), of back_dir dest_filename counter]
  show ?case
  proof (cases "os_path_exists d (suffixed back_dir dest_filename counter)")
    case False
    then have "dest_loop d back_dir dest_filename dest_path counter
        = suffixed back_dir dest_filename counter"
      using step by (simp add: dest_loop_unused)
    with False show ?thesis by (intro exI [of _ counter]) auto
  next
    case True
    from 1(1) [OF 1(2) s [symmetric]] True j
    obtain k where k: "k \<ge> counter + 1"
      "dest_loop d back_dir dest_filename (suffixed back_dir dest_filename counter) (counter + 1)
         = suffixed back_dir dest_filename k"
      "\<not> os_path_exists d (suffixed back_dir dest_filename k)"
      "\<forall>j. counter + 1 \<le> j \<and> j < k \<longrightarrow> os_path_exists d (suffixed back_dir dest_filename j)"
      by auto
    have "\<forall>j. counter \<le> j \<and> j < k \<longrightarrow> os_path_exists d (suffixed back_dir dest_filename j)"
    proof (intro allI impI)
      fix j assume "counter \<le> j \<and> j < k"
      then have "j = counter \<or> (counter + 1 \<le> j \<and> j < k)" by arith
      with True k(4) show "os_path_exists d (suffixed back_dir dest_filename j)" by blast
    qed
    with k step show ?thesis by (intro exI [of _ k]) simp
  qed
qed

section \<open>Relocation\<close>

definition unique_dest :: "disk \<Rightarrow> string \<Rightarrow> string \<Rightarrow> string" where
  "unique_dest d back_dir dest_filename =
     dest_loop d back_dir dest_filename (join back_dir dest_filename) 1"

text \<open>
  One line of the report per file: \<open>Moved\<close> for the line printed after a successful
  \<open>shutil.move\<close>, \<open>Failed\<close> for the line printed by the exception handler.
\<close>

datatype outcome = Moved string string | Failed string os_error


fun outcome_src :: "outcome \<Rightarrow> string" where
  "outcome_src (Moved src dst) = src"
| "outcome_src (Failed src e) = src"

text \<open>
  The answer typed at the prompt is a parameter. It is a Python string, here the list of
  its code points, since \<open>str.strip\<close> removes every character for which
  \<open>str.isspace\<close> holds: the ASCII white space and U+0085, U+00A0, U+1680,
  U+2000 to U+200A, U+2028, U+2029, U+202F, U+205F and U+3000. \<open>confirmed\<close> is
  \<open>choice.strip().lower() == 'y'\<close>. Of \<open>str.lower\<close> the model has the ASCII letters only:
  no other code point is mapped to \<open>y\<close>, so the comparison is the one Python makes.
\<close>

definition is_space :: "nat \<Rightarrow> bool" where
  "is_space c =
     ((9 \<le> c \<and> c \<le> 13) \<or> (28 \<le> c \<and> c \<le> 32) \<or> c = 133 \<or> c = 160 \<or> c = 5760 \<or>
      (8192 \<le> c \<and> c \<le> 8202) \<or> c = 8232 \<or> c = 8233 \<or> c = 8239 \<or> c = 8287 \<or> c = 12288)"

definition py_strip :: "nat list \<Rightarrow> nat list" where
  "py_strip s = rev (dropWhile is_space (rev (dropWhile is_space s)))"

definition lower_point :: "nat \<Rightarrow> nat" where
  "lower_point c = (if 65 \<le> c \<and> c \<le> 90 then c + 32 else c)"

definition confirmed :: "nat list \<Rightarrow> bool" where
  "confirmed choice = (map lower_point (py_strip choice) = [121])"

text \<open>
  The resolvers return the counter, the disk they leave and the report. The prompt is
  reached only when something is marked.
\<close>

definition move_duplicate :: "disk \<Rightarrow> string \<Rightarrow> string \<Rightarrow> os_error + (string \<times> disk)" where
  "move_duplicate d back_dir fp =
     (let filename = basename fp;
          fld = basename (dirname fp);
          dest_filename = ''dup_'' @ fld @ ''_'' @ filename;
          dest_path = unique_dest d back_dir dest_filename
      in case shutil_move d fp dest_path of
           Inl e \<Rightarrow> Inl e
         | Inr d' \<Rightarrow> Inr (dest_path, d'))"

definition dup_step ::
  "string \<Rightarrow> nat \<times> disk \<times> outcome list \<Rightarrow> string \<Rightarrow> nat \<times> disk \<times> outcome list" where
  "dup_step back_dir st fp =
     (case st of (success_count, d, report) \<Rightarrow>
        (case move_duplicate d back_dir fp of
           Inr (dest_path, d') \<Rightarrow> (success_count + 1, d', report @ [Moved fp dest_path])
         | Inl e \<Rightarrow> (success_count, d, report @ [Failed fp e])))"

definition clean_duplicate_pdfs ::
  "disk \<Rightarrow> nat list \<Rightarrow> (string \<times> string) list \<Rightarrow> db_index \<Rightarrow> string
     \<Rightarrow> nat \<times> disk \<times> outcome list" where
  "clean_duplicate_pdfs d choice pdf_files db_files back_dir =
     (if duplicates pdf_files = [] then (0, d, [])
      else if files_to_delete pdf_files db_files = [] then (0, d, [])
      else if \<not> confirmed choice then (0, d, [])
      else foldl (dup_step back_dir) (0, d, []) (files_to_delete pdf_files db_files))"



definition move_orphan ::
  "disk \<Rightarrow> string \<Rightarrow> string \<times> string \<times> string \<Rightarrow> os_error + (string \<times> disk)" where
  "move_orphan d back_dir item =
     (case item of (fp, filename, fld) \<Rightarrow>
        (let dest_filename = ''orphan_'' @ fld @ ''_'' @ filename;
             dest_path = unique_dest d back_dir dest_filename
         in case shutil_move d fp dest_path of
              Inl e \<Rightarrow> Inl e
            | Inr d' \<Rightarrow> Inr (dest_path, d')))"

definition orphan_step ::
  "string \<Rightarrow> nat \<times> disk \<times> outcome list \<Rightarrow> string \<times> string \<times> string
     \<Rightarrow> nat \<times> disk \<times> outcome list" where
  "orphan_step back_dir st item =
     (case st of (success_count, d, report) \<Rightarrow>
        (case move_orphan d back_dir item of
           Inr (dest_path, d') \<Rightarrow> (success_count + 1, d', report @ [Moved (fst item) dest_path])
         | Inl e \<Rightarrow> (success_count, d, report @ [Failed (fst item) e])))"


section \<open>Moves\<close>

lemma os_path_exists_iff: "os_path_exists d p \<longleftrightarrow> map_of (entries d) p \<noteq> None"
  by (simp add: os_path_exists_def map_of_eq_None_iff)

lemma map_of_filter_two:
  "map_of (filter (\<lambda>e. fst e \<noteq> a \<and> fst e \<noteq> b) es) q =
     (if q = a \<or> q = b then None else map_of es q)"
  by (induction es) auto

lemma shutil_move_lookup:
  assumes "shutil_move d src dst = Inr d'"
  shows "map_of (entries d') q =
     (if q = dst then map_of (entries d) src else if q = src then None else map_of (entries d) q)"
  using assms
  by (auto simp: shutil_move_def map_of_filter_two split: option.splits if_splits)

lemma shutil_move_locked:
  "shutil_move d src dst = Inr d' \<Longrightarrow> locked d' = locked d"
  by (auto simp: shutil_move_def split: option.splits if_splits)

lemma unique_dest_free: "\<not> os_path_exists d (unique_dest d back_dir dest_filename)"
  by (simp add: unique_dest_def dest_loop_free)

text \<open>A successful move leaves every other existing path as it was.\<close>

lemma shutil_move_frame:
  assumes "shutil_move d src dst = Inr d'" and "\<not> os_path_exists d dst"
    and "os_path_exists d q" and "q \<noteq> src"
  shows "map_of (entries d') q = map_of (entries d) q"
proof -
  from assms(2,3) have "q \<noteq> dst" by auto
  with assms(1,4) show ?thesis by (simp add: shutil_move_lookup)
qed

lemma move_duplicate_frame:
  assumes "move_duplicate d back_dir fp = Inr (dest, d')" and "os_path_exists d q" and "q \<noteq> fp"
  shows "map_of (entries d') q = map_of (entries d) q"
  using assms unique_dest_free [of d back_dir "''dup_'' @ basename (dirname fp) @ ''_'' @ basename fp"]
  by (auto simp: move_duplicate_def Let_def split: sum.splits dest: shutil_move_frame)

lemma move_orphan_frame:
  assumes "move_orphan d back_dir (fp, filename, fld) = Inr (dest, d')"
    and "os_path_exists d q" and "q \<noteq> fp"
  shows "map_of (entries d') q = map_of (entries d) q"
  using assms unique_dest_free [of d back_dir "''orphan_'' @ fld @ ''_'' @ filename"]
  by (auto simp: move_orphan_def Let_def split: sum.splits dest: shutil_move_frame)

lemma dup_step_frame:
  assumes "dup_step back_dir (n, d, r) fp = (n', d', r')" and "os_path_exists d q" and "q \<noteq> fp"
  shows "map_of (entries d') q = map_of (entries d) q"
  using assms
  by (auto simp: dup_step_def split: sum.splits dest: move_duplicate_frame)

lemma orphan_step_frame:
  assumes "orphan_step back_dir (n, d, r) item = (n', d', r')" and "os_path_exists d q"
    and "q \<noteq> fst item"
  shows "map_of (entries d') q = map_of (entries d) q"
  using assms
  by (cases item) (auto simp: orphan_step_def split: sum.splits dest: move_orphan_frame)

lemma dup_loop_frame:
  assumes "os_path_exists d q" and "q \<notin> set xs"
  shows "map_of (entries (fst (snd (foldl (dup_step back_dir) (n, d, r) xs)))) q
           = map_of (entries d) q"
  using assms
proof (induction xs arbitrary: n d r)
  case Nil
  then show ?case by simp
next
  case (Cons x xs)
  obtain n' d' r' where s: "dup_step back_dir (n, d, r) x = (n', d', r')"
    by (cases "dup_step back_dir (n, d, r) x")
  from Cons.prems have q: "q \<noteq> x" "q \<notin> set xs" by auto
  from dup_step_frame [OF s Cons.prems(1) q(1)]
  have e: "map_of (entries d') q = map_of (entries d) q" .
  with Cons.prems(1) have "os_path_exists d' q" by (simp add: os_path_exists_iff)
  from Cons.IH [OF this q(2), of n' r'] e s show ?case by simp
qed

lemma orphan_loop_frame:
  assumes "os_path_exists d q" and "q \<notin> fst ` set xs"
  shows "map_of (entries (fst (snd (foldl (orphan_step back_dir) (n, d, r) xs)))) q
           = map_of (entries d) q"
  using assms
proof (induction xs arbitrary: n d r)
  case Nil
  then show ?case by simp
next
  case (Cons x xs)
  obtain n' d' r' where s: "orphan_step back_dir (n, d, r) x = (n', d', r')"
    by (cases "orphan_step back_dir (n, d, r) x")
  from Cons.prems have q: "q \<noteq> fst x" "q \<notin> fst ` set xs" by auto
  from orphan_step_frame [OF s Cons.prems(1) q(1)]
  have e: "map_of (entries d') q = map_of (entries d) q" .
  with Cons.prems(1) have "os_path_exists d' q" by (simp add: os_path_exists_iff)
  from Cons.IH [OF this q(2), of n' r'] e s show ?case by simp
qed


lemma dup_loop_report:
  "map outcome_src (snd (snd (foldl (dup_step back_dir) (n, d, r) xs))) = map outcome_src r @ xs"
proof (induction xs arbitrary: n d r)
  case Nil
  then show ?case by simp
next
  case (Cons x xs)
  show ?case
  proof (cases "move_duplicate d back_dir x")
    case (Inl e)
    with Cons.IH [of n d "r @ [Failed x e]"] show ?thesis by (simp add: dup_step_def)
  next
    case (Inr res)
    obtain dest d' where "res = (dest, d')" by (cases res)
    with Inr Cons.IH [of "n + 1" d' "r @ [Moved x dest]"] show ?thesis
      by (simp add: dup_step_def)
  qed
qed



lemma clean_duplicate_pdfs_cases:
  "clean_duplicate_pdfs d choice pdf_files db_files back_dir =
     (if confirmed choice
      then foldl (dup_step back_dir) (0, d, []) (files_to_delete pdf_files db_files)
      else (0, d, []))"
proof -
  have "files_to_delete pdf_files db_files = []" if "duplicates pdf_files = []"
    using that by (simp add: files_to_delete_def)
  then show ?thesis by (auto simp: clean_duplicate_pdfs_def)
qed


lemma clean_duplicate_pdfs_sources:
  "set (map outcome_src (snd (snd (clean_duplicate_pdfs d choice pdf_files db_files back_dir))))
     \<subseteq> set (files_to_delete pdf_files db_files)"
proof (cases "confirmed choice")
  case True
  have "map outcome_src (snd (snd (foldl (dup_step back_dir) (0, d, [])
          (files_to_delete pdf_files db_files)))) = files_to_delete pdf_files db_files"
    using dup_loop_report [of back_dir 0 d "[]" "files_to_delete pdf_files db_files"] by simp
  with True show ?thesis
    by (simp only: clean_duplicate_pdfs_cases if_True)
next
  case False
  then show ?thesis by (simp add: clean_duplicate_pdfs_cases)
qed


lemma unique_dest_name:
  "(if os_path_exists d (join back_dir name)
    then (case splitext name of
            (base, ext) \<Rightarrow>
              \<exists>k\<ge>1. unique_dest d back_dir name = join back_dir (base @ ''_'' @ str_nat k @ ext) \<and>
                (\<forall>j. 1 \<le> j \<and> j < k \<longrightarrow>
                   os_path_exists d (join back_dir (base @ ''_'' @ str_nat j @ ext))))
    else unique_dest d back_dir name = join back_dir name)"
proof (cases "os_path_exists d (join back_dir name)")
  case False
  then show ?thesis by (simp add: unique_dest_def dest_loop_unused)
next
  case True
  obtain base ext where s: "splitext name = (base, ext)" by (cases "splitext name")
  then have c: "suffixed back_dir name j = join back_dir (base @ ''_'' @ str_nat j @ ext)" for j
    by (simp add: suffixed_def)
  from dest_loop_first_free [OF True, of 1 back_dir name] True s show ?thesis
    unfolding unique_dest_def c by auto
qed

lemma move_duplicate_result:
  assumes "move_duplicate d back_dir fp = Inr (dest, d')"
  shows "dest = unique_dest d back_dir (''dup_'' @ folder_of fp @ ''_'' @ basename fp) \<and>
         map_of (entries d') dest = map_of (entries d) fp"
  using assms
  by (auto simp: move_duplicate_def Let_def folder_of_def shutil_move_lookup split: sum.splits)

lemma move_orphan_result:
  assumes "move_orphan d back_dir (fp, filename, fld) = Inr (dest, d')"
  shows "dest = unique_dest d back_dir (''orphan_'' @ fld @ ''_'' @ filename) \<and>
         map_of (entries d') dest = map_of (entries d) fp"
  using assms
  by (auto simp: move_orphan_def Let_def shutil_move_lookup split: sum.splits)


text \<open>
  A disk for the examples: the scanned files of \<open>ex_pdfs\<close>, a backup directory \<open>/b\<close> that
  already holds \<open>dup_XY99ZZ_a.pdf\<close>, and one file that cannot be moved.
\<close>

definition ex_disk :: disk where
  "ex_disk = \<lparr>entries = [(''/s/AB12CD/a.pdf'', ''A''), (''/s/XY99ZZ/a.pdf'', ''B''),
                          (''/s/K1/g.pdf'', ''C''), (''/s/K2/g.pdf'', ''D''),
                          (''/s/K3/u.pdf'', ''E''), (''/s/ZZ/m.pdf'', ''F''),
                          (''/b/dup_XY99ZZ_a.pdf'', ''old'')],
              locked = [''/s/K1/g.pdf'']\<rparr>"

section \<open>Collision-safe backup names\<close>

text \<open>
  Claim C5. The destination chosen for a file does not exist on the disk. It is the
  constructed name in the backup directory when that is unused; otherwise it is the
  constructed name with \<open>_k\<close> inserted before the extension, for the first
  \<open>k = 1, 2, ...\<close> whose name is unused. A relocated duplicate goes to the destination
  chosen for \<open>dup_<folder>_<filename>\<close> and a relocated orphan to the one chosen for
  \<open>orphan_<folder>_<filename>\<close>; the destination then holds the file's data and every
  other path that existed keeps its data, so no backup file is overwritten.
\<close>

theorem C5_collision_safe_backup_naming:
  "\<not> os_path_exists d (unique_dest d back_dir name) \<and>
   (if os_path_exists d (join back_dir name)
    then (case splitext name of
            (base, ext) \<Rightarrow>
              \<exists>k\<ge>1. unique_dest d back_dir name = join back_dir (base @ ''_'' @ str_nat k @ ext) \<and>
                (\<forall>j. 1 \<le> j \<and> j < k \<longrightarrow>
                   os_path_exists d (join back_dir (base @ ''_'' @ str_nat j @ ext))))
    else unique_dest d back_dir name = join back_dir name) \<and>
   (\<forall>dest d'. move_duplicate d back_dir fp = Inr (dest, d') \<longrightarrow>
      dest = unique_dest d back_dir (''dup_'' @ folder_of fp @ ''_'' @ basename fp) \<and>
      map_of (entries d') dest = map_of (entries d) fp \<and>
      (\<forall>q. os_path_exists d q \<and> q \<noteq> fp \<longrightarrow> map_of (entries d') q = map_of (entries d) q)) \<and>
   (\<forall>dest d'. move_orphan d back_dir (fp, filename, fld) = Inr (dest, d') \<longrightarrow>
      dest = unique_dest d back_dir (''orphan_'' @ fld @ ''_'' @ filename) \<and>
      map_of (entries d') dest = map_of (entries d) fp \<and>
      (\<forall>q. os_path_exists d q \<and> q \<noteq> fp \<longrightarrow> map_of (entries d') q = map_of (entries d) q))"
  using unique_dest_free [of d back_dir name] unique_dest_name [of d back_dir name]
    move_duplicate_result [of d back_dir fp] move_duplicate_frame [of d back_dir fp]
    move_orphan_result [of d back_dir fp filename fld]
    move_orphan_frame [of d back_dir fp filename fld]
  by blast

theorem C5_witness:
  "unique_dest ex_disk ''/b'' ''dup_XY99ZZ_a.pdf'' = ''/b/dup_XY99ZZ_a_1.pdf'' \<and>
   \<not> os_path_exists ex_disk ''/b/dup_XY99ZZ_a_1.pdf'' \<and>
   os_path_exists ex_disk ''/b/dup_XY99ZZ_a.pdf''"
proof -
  have e: "unique_dest ex_disk ''/b'' ''dup_XY99ZZ_a.pdf'' = ''/b/dup_XY99ZZ_a_1.pdf''"
    by code_simp
  have x: "os_path_exists ex_disk ''/b/dup_XY99ZZ_a.pdf''"
    by code_simp
  have "\<not> os_path_exists ex_disk (unique_dest ex_disk ''/b'' ''dup_XY99ZZ_a.pdf'')"
    using C5_collision_safe_backup_naming
      [where d = ex_disk and back_dir = "''/b''" and name = "''dup_XY99ZZ_a.pdf''"]
    by (rule conjunct1)
  with e x show ?thesis by simp
qed

section \<open>The return contract of the resolvers\<close>












section \<open>Idempotence of duplicate resolution\<close>

text \<open>
  The Storage Scanner (lines 85-97) on the disk: \<open>os.walk\<close> reaches every regular file
  below the storage root, and \<open>os.path.join(root, file)\<close> is the path of the file, so the
  scan is the list of the files below the root whose name ends in \<open>.pdf\<close>, each with its
  name. The files come in the order of the disk. \<open>backup_outside\<close> says that the backup
  directory is neither the storage root nor below it: no entry of it lies in the storage.
\<close>

definition in_storage :: "string \<Rightarrow> string \<Rightarrow> bool" where
  "in_storage storage_dir p =
     (let root = (if storage_dir \<noteq> [] \<and> last storage_dir = CHR ''/'' then storage_dir
                  else storage_dir @ ''/'')
      in length root < length p \<and> take (length root) p = root)"

definition collect_pdf_files :: "disk \<Rightarrow> string \<Rightarrow> (string \<times> string) list" where
  "collect_pdf_files d storage_dir =
     map (\<lambda>p. (p, basename p))
       (filter (\<lambda>p. in_storage storage_dir p \<and> is_pdf (basename p)) (map fst (entries d)))"

definition backup_outside :: "string \<Rightarrow> string \<Rightarrow> bool" where
  "backup_outside storage_dir back_dir =
     (\<forall>x. CHR ''/'' \<notin> set x \<longrightarrow> \<not> in_storage storage_dir (join back_dir x))"

lemma basename_no_sep: "CHR ''/'' \<notin> set (basename p)"
  by (auto simp: basename_def dest: set_takeWhileD)

lemma digit_char_no_sep: "n < 10 \<Longrightarrow> digit_char n \<noteq> CHR ''/''"
proof
  assume n: "n < 10" and e: "digit_char n = CHR ''/''"
  from e have "(of_char (char_of (48 + n)) :: nat) = of_char (CHR ''/'')"
    by (simp add: digit_char_def)
  then have "(48 + n) mod 256 = 47" by (simp only: of_char_of) simp
  with n show False by simp
qed

lemma str_nat_no_sep: "CHR ''/'' \<notin> set (str_nat n)"
proof (induction n rule: str_nat.induct)
  case (1 n)
  show ?case
  proof (cases "n < 10")
    case True
    then show ?thesis by (subst str_nat.simps) (simp add: digit_char_no_sep [symmetric])
  next
    case False
    with 1 have "CHR ''/'' \<notin> set (str_nat (n div 10))" by simp
    moreover have "digit_char (n mod 10) \<noteq> CHR ''/''" by (rule digit_char_no_sep) simp
    ultimately show ?thesis using False by (subst str_nat.simps) auto
  qed
qed

lemma splitext_parts: "splitext p = (base, ext) \<Longrightarrow> set base \<union> set ext \<subseteq> set p"
  by (auto simp: splitext_def Let_def split: if_splits dest: in_set_takeD in_set_dropD)

lemma unique_dest_in_backup:
  assumes "CHR ''/'' \<notin> set name"
  shows "\<exists>x. CHR ''/'' \<notin> set x \<and> unique_dest d back_dir name = join back_dir x"
proof (cases "os_path_exists d (join back_dir name)")
  case False
  with unique_dest_name [of d back_dir name] assms show ?thesis by auto
next
  case True
  obtain base ext where s: "splitext name = (base, ext)" by (cases "splitext name")
  with unique_dest_name [of d back_dir name] True obtain k where
    k: "unique_dest d back_dir name = join back_dir (base @ ''_'' @ str_nat k @ ext)"
    by auto
  from splitext_parts [OF s] assms have "CHR ''/'' \<notin> set base" "CHR ''/'' \<notin> set ext" by auto
  then have "CHR ''/'' \<notin> set (base @ ''_'' @ str_nat k @ ext)"
    by (simp add: str_nat_no_sep)
  with k show ?thesis by blast
qed

lemma move_duplicate_outside:
  assumes "backup_outside storage_dir back_dir" and "move_duplicate d back_dir fp = Inr (dest, d')"
  shows "\<not> in_storage storage_dir dest"
proof -
  have "CHR ''/'' \<notin> set (''dup_'' @ folder_of fp @ ''_'' @ basename fp)"
    by (simp add: basename_no_sep folder_of_def)
  from unique_dest_in_backup [OF this, of d back_dir] move_duplicate_result [OF assms(2)]
  obtain x where "CHR ''/'' \<notin> set x" "dest = join back_dir x" by auto
  with assms(1) show ?thesis by (simp add: backup_outside_def)
qed

text \<open>A move to a place outside the storage takes the source out of the next scan.\<close>

lemma collect_after_move:
  assumes "shutil_move d src dst = Inr d'" and "\<not> in_storage storage_dir dst"
  shows "collect_pdf_files d' storage_dir
           = filter (\<lambda>pf. fst pf \<noteq> src) (collect_pdf_files d storage_dir)"
proof -
  from assms(1) obtain data where
    e: "entries d' = (dst, data) # filter (\<lambda>e. fst e \<noteq> src \<and> fst e \<noteq> dst) (entries d)"
    by (auto simp: shutil_move_def split: option.splits if_splits)
  have "filter (\<lambda>p. in_storage storage_dir p \<and> is_pdf (basename p))
          (map fst (filter (\<lambda>e. fst e \<noteq> src \<and> fst e \<noteq> dst) es))
      = filter (\<lambda>p. p \<noteq> src)
          (filter (\<lambda>p. in_storage storage_dir p \<and> is_pdf (basename p)) (map fst es))"
    for es :: "(string \<times> string) list"
    using assms(2) by (induction es) auto
  then show ?thesis
    using assms(2) by (simp add: collect_pdf_files_def e filter_map comp_def)
qed

lemma dup_loop_bound:
  "fst (foldl (dup_step back_dir) (n, d, r) xs) \<le> n + length xs"
proof (induction xs arbitrary: n d r)
  case Nil
  then show ?case by simp
next
  case (Cons x xs)
  show ?case
  proof (cases "move_duplicate d back_dir x")
    case (Inl e)
    with Cons [of n d "r @ [Failed x e]"] show ?thesis by (simp add: dup_step_def)
  next
    case (Inr res)
    obtain dest d' where "res = (dest, d')" by (cases res)
    with Inr Cons [of "n + 1" d' "r @ [Moved x dest]"] show ?thesis
      by (simp add: dup_step_def)
  qed
qed

lemma collect_after_loop:
  assumes "backup_outside storage_dir back_dir"
    and "fst (foldl (dup_step back_dir) (n, d, r) xs) = n + length xs"
  shows "collect_pdf_files (fst (snd (foldl (dup_step back_dir) (n, d, r) xs))) storage_dir
           = filter (\<lambda>pf. fst pf \<notin> set xs) (collect_pdf_files d storage_dir)"
  using assms(2)
proof (induction xs arbitrary: n d r)
  case Nil
  then show ?case by simp
next
  case (Cons x xs)
  note bound = dup_loop_bound
  show ?case
  proof (cases "move_duplicate d back_dir x")
    case (Inl e)
    then have "foldl (dup_step back_dir) (n, d, r) (x # xs)
        = foldl (dup_step back_dir) (n, d, r @ [Failed x e]) xs"
      by (simp add: dup_step_def)
    with bound [of back_dir n d "r @ [Failed x e]" xs] Cons.prems show ?thesis by simp
  next
    case (Inr res)
    obtain dest d' where res: "res = (dest, d')" by (cases res)
    with Inr have st: "foldl (dup_step back_dir) (n, d, r) (x # xs)
        = foldl (dup_step back_dir) (n + 1, d', r @ [Moved x dest]) xs"
      by (simp add: dup_step_def)
    with Cons.prems have "fst (foldl (dup_step back_dir) (n + 1, d', r @ [Moved x dest]) xs)
        = (n + 1) + length xs" by simp
    from Cons.IH [OF this] have
      "collect_pdf_files (fst (snd (foldl (dup_step back_dir) (n + 1, d', r @ [Moved x dest]) xs)))
          storage_dir = filter (\<lambda>pf. fst pf \<notin> set xs) (collect_pdf_files d' storage_dir)" .
    moreover from Inr res have m: "move_duplicate d back_dir x = Inr (dest, d')" by simp
    then have "shutil_move d x dest = Inr d'"
      by (auto simp: move_duplicate_def Let_def split: sum.splits)
    from collect_after_move [OF this move_duplicate_outside [OF assms(1) m]]
    have "collect_pdf_files d' storage_dir
        = filter (\<lambda>pf. fst pf \<noteq> x) (collect_pdf_files d storage_dir)" .
    moreover from Inr res have "dup_step back_dir (n, d, r) x = (n + 1, d', r @ [Moved x dest])"
      by (simp add: dup_step_def)
    ultimately show ?thesis
      by (simp add: conj_commute)
  qed
qed

lemma files_to_delete_rest:
  "files_to_delete
      (filter (\<lambda>pf. fst pf \<notin> set (files_to_delete pdf_files db_files)) pdf_files) db_files = []"
proof -
  let ?rest = "filter (\<lambda>pf. fst pf \<notin> set (files_to_delete pdf_files db_files)) pdf_files"
  have "p \<notin> set (files_to_delete ?rest db_files)" for p
  proof
    assume "p \<in> set (files_to_delete ?rest db_files)"
    then obtain k where k: "(p, k) \<in> set ?rest" "copies ?rest k > 1" "to_remove db_files k p"
      unfolding files_to_delete_mem by blast
    have "copies ?rest k \<le> copies pdf_files k"
      unfolding copies_def filter_filter
      by (rule order_trans [OF _ length_filter_le [of "\<lambda>pf. fst pf \<notin> set (files_to_delete pdf_files db_files)"]])
         (simp add: conj_commute filter_filter [symmetric] del: filter_filter)
    with k(2) have "copies pdf_files k > 1" by simp
    moreover from k(1) have "(p, k) \<in> set pdf_files"
      and n: "p \<notin> set (files_to_delete pdf_files db_files)" by simp_all
    ultimately have "p \<in> set (files_to_delete pdf_files db_files)"
      using k(3) unfolding files_to_delete_mem by blast
    with n show False by simp
  qed
  then show ?thesis
    by (cases "files_to_delete ?rest db_files") auto
qed

text \<open>
  Claim C7, as amended. Let the backup directory lie outside the storage root. When the
  first run, on the scan of the disk, has relocated every marked file, the Duplicate Resolver
  marks nothing on the scan of the disk it left: run again, it returns 0 and moves
  nothing, whatever is answered.
\<close>

theorem C7_duplicate_resolution_idempotent:
  assumes "backup_outside storage_dir back_dir"
    and "clean_duplicate_pdfs d choice (collect_pdf_files d storage_dir) db_files back_dir
           = (n, d', report)"
    and "n = length (files_to_delete (collect_pdf_files d storage_dir) db_files)"
  shows "files_to_delete (collect_pdf_files d' storage_dir) db_files = [] \<and>
         clean_duplicate_pdfs d' choice' (collect_pdf_files d' storage_dir) db_files back_dir
           = (0, d', [])"
proof -
  let ?scan = "collect_pdf_files d storage_dir"
  let ?marked = "files_to_delete ?scan db_files"
  have rescan: "collect_pdf_files d' storage_dir = filter (\<lambda>pf. fst pf \<notin> set ?marked) ?scan"
  proof (cases "confirmed choice")
    case True
    with assms(2) have l: "foldl (dup_step back_dir) (0, d, []) ?marked = (n, d', report)"
      by (simp add: clean_duplicate_pdfs_cases)
    with assms(3) have "fst (foldl (dup_step back_dir) (0, d, []) ?marked) = 0 + length ?marked"
      by simp
    from collect_after_loop [OF assms(1) this] l show ?thesis by simp
  next
    case False
    with assms(2) have "n = 0" "d' = d" by (simp_all add: clean_duplicate_pdfs_cases)
    with assms(3) show ?thesis by simp
  qed
  have "files_to_delete (collect_pdf_files d' storage_dir) db_files = []"
    unfolding rescan by (rule files_to_delete_rest)
  then show ?thesis by (simp add: clean_duplicate_pdfs_def)
qed

text \<open>
  With the backup directory \<open>/s/bk\<close> below the storage root \<open>/s\<close> the claim fails: the
  first run relocates both copies of \<open>g.pdf\<close>; the next scan finds \<open>dup_K1_g.pdf\<close> in the
  backup directory and in \<open>/s/Q\<close>, and the second run moves both.
\<close>

definition ex_loop_disk :: disk where
  "ex_loop_disk = \<lparr>entries = [(''/s/K1/g.pdf'', ''C''), (''/s/K2/g.pdf'', ''D''),
                               (''/s/Q/dup_K1_g.pdf'', ''E'')],
                   locked = []\<rparr>"


definition ex_loop_disk' :: disk where
  "ex_loop_disk' = \<lparr>entries = [(''/s/bk/dup_K2_g.pdf'', ''D''), (''/s/bk/dup_K1_g.pdf'', ''C''),
                                (''/s/Q/dup_K1_g.pdf'', ''E'')],
                    locked = []\<rparr>"

theorem C7_counterexample:
  "files_to_delete (collect_pdf_files ex_loop_disk ''/s'') Map.empty
     = [''/s/K1/g.pdf'', ''/s/K2/g.pdf''] \<and>
   clean_duplicate_pdfs ex_loop_disk [121] (collect_pdf_files ex_loop_disk ''/s'') Map.empty ''/s/bk''
     = (2, ex_loop_disk',
        [Moved ''/s/K1/g.pdf'' ''/s/bk/dup_K1_g.pdf'', Moved ''/s/K2/g.pdf'' ''/s/bk/dup_K2_g.pdf'']) \<and>
   files_to_delete (collect_pdf_files ex_loop_disk' ''/s'') Map.empty
     = [''/s/bk/dup_K1_g.pdf'', ''/s/Q/dup_K1_g.pdf''] \<and>
   fst (clean_duplicate_pdfs ex_loop_disk' [121] (collect_pdf_files ex_loop_disk' ''/s'')
          Map.empty ''/s/bk'') = 2"
  by code_simp

lemma ex_backup_outside: "backup_outside ''/s'' ''/b''"
proof -
  have "\<not> in_storage ''/s'' (join ''/b'' x)" if "CHR ''/'' \<notin> set x" for x
  proof -
    from that have "join ''/b'' x = ''/b/'' @ x"
      by (cases x) (auto simp: join_def)
    then show ?thesis by (simp add: in_storage_def)
  qed
  then show ?thesis by (simp add: backup_outside_def)
qed

definition ex_disk2 :: disk where
  "ex_disk2 = \<lparr>entries = [(''/s/AB12CD/a.pdf'', ''A''), (''/s/XY99ZZ/a.pdf'', ''B''),
                           (''/s/K1/g.pdf'', ''C''), (''/s/K2/g.pdf'', ''D''),
                           (''/s/K3/u.pdf'', ''E''), (''/s/ZZ/m.pdf'', ''F'')],
               locked = []\<rparr>"

definition ex_disk2' :: disk where
  "ex_disk2' = \<lparr>entries = [(''/b/dup_K2_g.pdf'', ''D''), (''/b/dup_K1_g.pdf'', ''C''),
                            (''/b/dup_XY99ZZ_a.pdf'', ''B''), (''/s/AB12CD/a.pdf'', ''A''),
                            (''/s/K3/u.pdf'', ''E''), (''/s/ZZ/m.pdf'', ''F'')],
                locked = []\<rparr>"

theorem C7_witness:
  "clean_duplicate_pdfs ex_disk2 [121] (collect_pdf_files ex_disk2 ''/s'') ex_db ''/b''
     = (3, ex_disk2',
        [Moved ''/s/XY99ZZ/a.pdf'' ''/b/dup_XY99ZZ_a.pdf'',
         Moved ''/s/K1/g.pdf'' ''/b/dup_K1_g.pdf'',
         Moved ''/s/K2/g.pdf'' ''/b/dup_K2_g.pdf'']) \<and>
   files_to_delete (collect_pdf_files ex_disk2' ''/s'') ex_db = [] \<and>
   clean_duplicate_pdfs ex_disk2' [121] (collect_pdf_files ex_disk2' ''/s'') ex_db ''/b''
     = (0, ex_disk2', [])"
proof -
  have first: "clean_duplicate_pdfs ex_disk2 [121] (collect_pdf_files ex_disk2 ''/s'') ex_db ''/b''
     = (3, ex_disk2',
        [Moved ''/s/XY99ZZ/a.pdf'' ''/b/dup_XY99ZZ_a.pdf'',
         Moved ''/s/K1/g.pdf'' ''/b/dup_K1_g.pdf'',
         Moved ''/s/K2/g.pdf'' ''/b/dup_K2_g.pdf''])"
    by code_simp
  have completed: "3 = length (files_to_delete (collect_pdf_files ex_disk2 ''/s'') ex_db)"
    by code_simp
  from C7_duplicate_resolution_idempotent [OF ex_backup_outside first completed, where choice' = "[121]"]
    first
  show ?thesis by simp
qed

section \<open>What the Duplicate Resolver leaves alone\<close>

text \<open>
  Claim C10. A scanned file whose filename has exactly one scanned copy is never marked,
  whatever folder the Database Index records for the filename, and after the run it is
  still at its path with its data. Every file the run moves belongs to a filename with
  more than one copy and was marked for removal.
\<close>

theorem C10_duplicate_resolver_frame:
  assumes "distinct (map fst pdf_files)"
    and "(p, k) \<in> set pdf_files"
    and "copies pdf_files k = 1"
    and "os_path_exists d p"
  shows "p \<notin> set (files_to_delete pdf_files db_files) \<and>
    (case clean_duplicate_pdfs d choice pdf_files db_files back_dir of
       (n, d', report) \<Rightarrow>
         map_of (entries d') p = map_of (entries d) p \<and>
         (\<forall>src dst. Moved src dst \<in> set report \<longrightarrow>
            (\<exists>k'. (src, k') \<in> set pdf_files \<and> copies pdf_files k' > 1 \<and>
                  to_remove db_files k' src)))"
proof -
  have uniq: "k' = k" if "(p, k') \<in> set pdf_files" for k'
  proof -
    have "map_of pdf_files p = Some k" using assms(1,2) by (rule map_of_is_SomeI)
    moreover have "map_of pdf_files p = Some k'" using assms(1) that by (rule map_of_is_SomeI)
    ultimately show ?thesis by simp
  qed
  have unmarked: "p \<notin> set (files_to_delete pdf_files db_files)"
  proof
    assume "p \<in> set (files_to_delete pdf_files db_files)"
    then obtain k' where "(p, k') \<in> set pdf_files" and "copies pdf_files k' > 1"
      unfolding files_to_delete_mem by blast
    with uniq [of k'] assms(3) show False by simp
  qed
  obtain n d' report where
    r: "clean_duplicate_pdfs d choice pdf_files db_files back_dir = (n, d', report)"
    by (cases "clean_duplicate_pdfs d choice pdf_files db_files back_dir")
  have frame: "map_of (entries d') p = map_of (entries d) p"
  proof (cases "confirmed choice")
    case True
    with r dup_loop_frame [OF assms(4) unmarked, of back_dir 0 "[]"] show ?thesis
      by (simp add: clean_duplicate_pdfs_cases)
  next
    case False
    with r show ?thesis by (simp add: clean_duplicate_pdfs_cases)
  qed
  have srcs: "set (map outcome_src report) \<subseteq> set (files_to_delete pdf_files db_files)"
    using clean_duplicate_pdfs_sources [of d choice pdf_files db_files back_dir] r by simp
  have moved: "\<exists>k'. (src, k') \<in> set pdf_files \<and> copies pdf_files k' > 1 \<and> to_remove db_files k' src"
    if "Moved src dst \<in> set report" for src dst
  proof -
    from that have "outcome_src (Moved src dst) \<in> set (map outcome_src report)"
      unfolding set_map by (rule imageI)
    with srcs have "src \<in> set (files_to_delete pdf_files db_files)" by auto
    then show ?thesis unfolding files_to_delete_mem .
  qed
  from moved have "\<forall>src dst. Moved src dst \<in> set report \<longrightarrow>
      (\<exists>k'. (src, k') \<in> set pdf_files \<and> copies pdf_files k' > 1 \<and> to_remove db_files k' src)"
    by blast
  with unmarked frame show ?thesis unfolding r by simp
qed

theorem C10_witness:
  "''/s/ZZ/m.pdf'' \<notin> set (files_to_delete ex_pdfs ex_db) \<and>
   map_of (entries (fst (snd (clean_duplicate_pdfs ex_disk [121] ex_pdfs ex_db ''/b''))))
     ''/s/ZZ/m.pdf'' = Some ''F'' \<and>
   folder_of ''/s/ZZ/m.pdf'' \<noteq> ''MM''"
proof -
  have d: "distinct (map fst ex_pdfs)" by (simp add: ex_pdfs_def)
  have m: "(''/s/ZZ/m.pdf'', ''m.pdf'') \<in> set ex_pdfs" by (simp add: ex_pdfs_def)
  have c: "copies ex_pdfs ''m.pdf'' = 1" by (simp add: copies_def ex_pdfs_def)
  have x: "os_path_exists ex_disk ''/s/ZZ/m.pdf''" by code_simp
  have v: "map_of (entries ex_disk) ''/s/ZZ/m.pdf'' = Some ''F''" by (simp add: ex_disk_def)
  have f: "folder_of ''/s/ZZ/m.pdf'' \<noteq> ''MM''"
    by (simp add: folder_of_def basename_def dirname_def rstrip_sep_def)
  show ?thesis
    using C10_duplicate_resolver_frame
      [OF d m c x, where db_files = ex_db and choice = "[121]" and back_dir = "''/b''"] v f
    by (simp add: case_prod_beta)
qed

section \<open>Database Index Builder\<close>

text \<open>
  The rows of the query, with the \<open>path\<close> column as the value pandas hands over (a string
  or something else) and \<open>itemKey\<close> as the text key of the item. The loop body of
  \<open>get_database_pdfs\<close> (lines 128-151) is \<open>parse_path\<close> followed by \<open>index_step\<close>;
  \<open>split_on\<close> is \<open>str.split(sep)\<close>, which never returns an empty list, and
  \<open>split_once\<close> is \<open>str.split(sep, 1)\<close> on a string that contains the separator.
\<close>

datatype pyval = PyStr string | PyBytes string | PyInt int | PyNone

record row =
  row_itemID :: int
  row_parentItemID :: "int option"
  row_path :: pyval
  row_itemKey :: string

fun split_on :: "char \<Rightarrow> string \<Rightarrow> string list" where
  "split_on sep [] = [[]]"
| "split_on sep (c # cs) =
     (if c = sep then [] # split_on sep cs
      else (case split_on sep cs of
              w # ws \<Rightarrow> (c # w) # ws
            | [] \<Rightarrow> [[c]]))"

definition split_once :: "char \<Rightarrow> string \<Rightarrow> string \<times> string" where
  "split_once sep s =
     (takeWhile (\<lambda>c. c \<noteq> sep) s, drop 1 (dropWhile (\<lambda>c. c \<noteq> sep) s))"

definition py_replace :: "char \<Rightarrow> char \<Rightarrow> string \<Rightarrow> string" where
  "py_replace old new s = map (\<lambda>c. if c = old then new else c) s"

definition parse_path :: "row \<Rightarrow> (string \<times> string) option" where
  "parse_path r =
     (case row_path r of
        PyStr path \<Rightarrow>
          if CHR '':'' \<in> set path then
            (let parts = snd (split_once (CHR '':'') path)
             in if CHR ''/'' \<in> set parts \<or> CHR 0x5C \<in> set parts
                then (let parts' = py_replace (CHR 0x5C) (CHR ''/'') parts
                      in Some (hd (split_on (CHR ''/'') parts'), last (split_on (CHR ''/'') parts')))
                else Some (row_itemKey r, parts))
          else None
      | _ \<Rightarrow> None)"

definition record_of :: "row \<Rightarrow> string \<Rightarrow> db_record" where
  "record_of r fld =
     \<lparr>db_folder = fld, db_itemKey = row_itemKey r,
      db_path = (case row_path r of PyStr path \<Rightarrow> path | _ \<Rightarrow> []),
      db_itemID = row_itemID r\<rparr>"

definition index_step ::
  "db_index \<times> string set \<Rightarrow> row \<Rightarrow> db_index \<times> string set" where
  "index_step st r =
     (case st of (db_files, db_folders) \<Rightarrow>
        (case parse_path r of
           None \<Rightarrow> (db_files, db_folders)
         | Some (fld, filename) \<Rightarrow>
             (db_files(filename \<mapsto>
                (case db_files filename of None \<Rightarrow> [] | Some recs \<Rightarrow> recs) @
                [record_of r fld]),
              insert fld db_folders)))"

definition get_database_pdfs :: "row list \<Rightarrow> db_index \<times> string set" where
  "get_database_pdfs rows = foldl index_step (Map.empty, {}) rows"

lemma split_on_nonempty: "split_on sep s \<noteq> []"
  by (induction s) (auto split: list.splits)

lemma hd_split_on: "hd (split_on sep s) = takeWhile (\<lambda>c. c \<noteq> sep) s"
  by (induction s) (auto split: list.splits simp: split_on_nonempty)

lemma split_on_single: "sep \<notin> set s \<Longrightarrow> split_on sep s = [s]"
  by (induction s) auto

lemma split_on_several: "sep \<in> set s \<Longrightarrow> tl (split_on sep s) \<noteq> []"
proof (induction s)
  case Nil
  then show ?case by simp
next
  case (Cons c cs)
  show ?case
  proof (cases "c = sep")
    case True
    then show ?thesis by (simp add: split_on_nonempty)
  next
    case False
    with Cons.prems have "sep \<in> set cs" by simp
    from Cons.IH [OF this] False show ?thesis
      by (cases "split_on sep cs") auto
  qed
qed

lemma last_segment_Cons:
  "rev (takeWhile (\<lambda>c. c \<noteq> sep) (rev (c # cs))) =
     (if sep \<in> set cs then rev (takeWhile (\<lambda>c. c \<noteq> sep) (rev cs))
      else if c = sep then cs else c # cs)"
  by (auto simp: takeWhile_append)

lemma last_split_on: "last (split_on sep s) = rev (takeWhile (\<lambda>c. c \<noteq> sep) (rev s))"
proof (induction s)
  case Nil
  then show ?case by simp
next
  case (Cons c cs)
  show ?case
  proof (cases "sep \<in> set cs")
    case False
    then show ?thesis
      by (simp only: last_segment_Cons) (simp add: split_on_single)
  next
    case True
    obtain w ws where s: "split_on sep cs = w # ws" and ws: "ws \<noteq> []"
      using split_on_several [OF True] by (cases "split_on sep cs") auto
    have "last (split_on sep (c # cs)) = last (split_on sep cs)"
      using s ws by simp
    with Cons.IH True show ?thesis
      by (simp only: last_segment_Cons) simp
  qed
qed

definition records_for :: "row list \<Rightarrow> string \<Rightarrow> db_record list" where
  "records_for rows filename =
     map (\<lambda>r. record_of r (fst (the (parse_path r))))
       (filter (\<lambda>r. map_option snd (parse_path r) = Some filename) rows)"

lemma split_once_first:
  "sep \<notin> set pre \<Longrightarrow> split_once sep (pre @ sep # rest) = (pre, rest)"
  by (simp add: split_once_def takeWhile_append2 dropWhile_append3 dropWhile_append)

lemma parse_path_string:
  assumes "row_path r = PyStr (pre @ CHR '':'' # rest)" and "CHR '':'' \<notin> set pre"
  shows "parse_path r =
     (if CHR ''/'' \<in> set rest \<or> CHR 0x5C \<in> set rest
      then Some (takeWhile (\<lambda>c. c \<noteq> CHR ''/'') (py_replace (CHR 0x5C) (CHR ''/'') rest),
                 rev (takeWhile (\<lambda>c. c \<noteq> CHR ''/'')
                        (rev (py_replace (CHR 0x5C) (CHR ''/'') rest))))
      else Some (row_itemKey r, rest))"
  using assms
  by (simp add: parse_path_def split_once_first hd_split_on last_split_on Let_def)

lemma index_step_None: "parse_path r = None \<Longrightarrow> index_step (db_files, db_folders) r = (db_files, db_folders)"
  by (simp add: index_step_def)

lemma index_step_Some:
  "parse_path r = Some (fld, filename) \<Longrightarrow>
     index_step (db_files, db_folders) r =
       (db_files(filename \<mapsto>
          (case db_files filename of None \<Rightarrow> [] | Some recs \<Rightarrow> recs) @ [record_of r fld]),
        insert fld db_folders)"
  by (simp add: index_step_def)

lemma parse_path_skipped:
  assumes "\<forall>s. row_path r = PyStr s \<longrightarrow> CHR '':'' \<notin> set s"
  shows "parse_path r = None" and "index_step st r = st"
proof -
  show p: "parse_path r = None"
    using assms by (cases "row_path r") (auto simp: parse_path_def)
  show "index_step st r = st"
    by (cases st) (simp add: index_step_None p)
qed

lemma records_for_Nil: "records_for [] filename = []"
  by (simp add: records_for_def)

lemma records_for_Cons:
  "records_for (r # rows) filename =
     (case parse_path r of
        None \<Rightarrow> records_for rows filename
      | Some (fld, fn) \<Rightarrow>
          if fn = filename then record_of r fld # records_for rows filename
          else records_for rows filename)"
  by (auto simp: records_for_def split: option.splits)

lemma index_loop_folders:
  "snd (foldl index_step (db_files, db_folders) rows) =
     db_folders \<union> {fld. \<exists>r\<in>set rows. \<exists>filename. parse_path r = Some (fld, filename)}"
proof (induction rows arbitrary: db_files db_folders)
  case Nil
  then show ?case by simp
next
  case (Cons r rows)
  let ?S = "{fld. \<exists>r\<in>set rows. \<exists>filename. parse_path r = Some (fld, filename)}"
  show ?case
  proof (cases "parse_path r")
    case None
    then have "{fld. \<exists>r'\<in>set (r # rows). \<exists>filename. parse_path r' = Some (fld, filename)} = ?S"
      by auto
    with Cons [of db_files db_folders] None show ?thesis
      by (simp only: foldl_Cons index_step_None)
  next
    case (Some a)
    obtain fld fn where a: "parse_path r = Some (fld, fn)" using Some by (cases a) simp
    then have "{fld. \<exists>r'\<in>set (r # rows). \<exists>filename. parse_path r' = Some (fld, filename)}
        = insert fld ?S"
      by auto
    then show ?thesis
      by (simp only: foldl_Cons index_step_Some [OF a] Cons) simp
  qed
qed

lemma index_loop_files:
  "fst (foldl index_step (db_files, db_folders) rows) filename =
     (case db_files filename of
        None \<Rightarrow> (if records_for rows filename = [] then None
                  else Some (records_for rows filename))
      | Some recs \<Rightarrow> Some (recs @ records_for rows filename))"
proof (induction rows arbitrary: db_files db_folders)
  case Nil
  then show ?case by (simp add: records_for_Nil split: option.splits)
next
  case (Cons r rows)
  show ?case
  proof (cases "parse_path r")
    case None
    then show ?thesis
    proof -
      have e: "records_for (r # rows) filename = records_for rows filename"
        using None by (simp add: records_for_Cons)
      show ?thesis
        by (simp only: foldl_Cons index_step_None [OF None] Cons e)
    qed
  next
    case (Some a)
    obtain fld fn where a: "parse_path r = Some (fld, fn)" using Some by (cases a) simp
    have e: "records_for (r # rows) filename =
        (if fn = filename then record_of r fld # records_for rows filename
         else records_for rows filename)"
      using a by (simp add: records_for_Cons)
    show ?thesis
      by (simp only: foldl_Cons index_step_Some [OF a] Cons e)
         (simp split: option.splits)
  qed
qed

text \<open>
  Claim C4. A row whose path is a string \<open>pre:rest\<close>, with no colon in \<open>pre\<close>, is parsed
  from \<open>rest\<close>: when \<open>rest\<close> contains \<open>/\<close> or a backslash, the folder is its first
  segment and the filename its last segment (backslashes read as \<open>/\<close>); otherwise the
  folder is the row's item key and the filename is \<open>rest\<close>. A row whose path is not a string
  or has no colon is skipped: it changes neither the index nor the folder set. The folder
  set returned is exactly the set of folders derived from the rows, and the index maps a
  filename to the records of the rows that gave it, in row order.
\<close>

theorem C4_database_index_parsing:
  "(row_path r = PyStr (pre @ CHR '':'' # rest) \<and> CHR '':'' \<notin> set pre \<longrightarrow>
      parse_path r =
        (if CHR ''/'' \<in> set rest \<or> CHR 0x5C \<in> set rest
         then Some (takeWhile (\<lambda>c. c \<noteq> CHR ''/'') (py_replace (CHR 0x5C) (CHR ''/'') rest),
                    rev (takeWhile (\<lambda>c. c \<noteq> CHR ''/'')
                           (rev (py_replace (CHR 0x5C) (CHR ''/'') rest))))
         else Some (row_itemKey r, rest))) \<and>
   ((\<forall>s. row_path r = PyStr s \<longrightarrow> CHR '':'' \<notin> set s) \<longrightarrow>
      parse_path r = None \<and> index_step st r = st) \<and>
   snd (get_database_pdfs rows) =
     {fld. \<exists>r\<in>set rows. \<exists>filename. parse_path r = Some (fld, filename)} \<and>
   fst (get_database_pdfs rows) filename =
     (if records_for rows filename = [] then None else Some (records_for rows filename))"
proof (intro conjI impI)
  show "parse_path r =
        (if CHR ''/'' \<in> set rest \<or> CHR 0x5C \<in> set rest
         then Some (takeWhile (\<lambda>c. c \<noteq> CHR ''/'') (py_replace (CHR 0x5C) (CHR ''/'') rest),
                    rev (takeWhile (\<lambda>c. c \<noteq> CHR ''/'')
                           (rev (py_replace (CHR 0x5C) (CHR ''/'') rest))))
         else Some (row_itemKey r, rest))"
    if "row_path r = PyStr (pre @ CHR '':'' # rest) \<and> CHR '':'' \<notin> set pre"
  proof -
    from that have a: "row_path r = PyStr (pre @ CHR '':'' # rest)"
      and b: "CHR '':'' \<notin> set pre" by simp_all
    from parse_path_string [OF a b] show ?thesis .
  qed
  show "parse_path r = None" if "\<forall>s. row_path r = PyStr s \<longrightarrow> CHR '':'' \<notin> set s"
    using that by (rule parse_path_skipped)
  show "index_step st r = st" if "\<forall>s. row_path r = PyStr s \<longrightarrow> CHR '':'' \<notin> set s"
    using that by (rule parse_path_skipped)
  show "snd (get_database_pdfs rows) =
     {fld. \<exists>r\<in>set rows. \<exists>filename. parse_path r = Some (fld, filename)}"
    unfolding get_database_pdfs_def index_loop_folders by simp
  show "fst (get_database_pdfs rows) filename =
     (if records_for rows filename = [] then None else Some (records_for rows filename))"
    unfolding get_database_pdfs_def index_loop_files by simp
qed

definition ex_row1 :: row where
  "ex_row1 = \<lparr>row_itemID = 7, row_parentItemID = Some 3,
              row_path = PyStr ''storage:a.pdf'', row_itemKey = ''AB12CD''\<rparr>"

definition ex_row2 :: row where
  "ex_row2 = \<lparr>row_itemID = 9, row_parentItemID = None,
              row_path = PyStr (''attachments:sub'' @ [CHR 0x5C] @ ''dir/x.pdf''),
              row_itemKey = ''QQ11WW''\<rparr>"

definition ex_row3 :: row where
  "ex_row3 = \<lparr>row_itemID = 10, row_parentItemID = None,
              row_path = PyStr ''no colon here'', row_itemKey = ''EE22RR''\<rparr>"



theorem C4_witness:
  "parse_path ex_row1 = Some (''AB12CD'', ''a.pdf'') \<and>
   parse_path ex_row2 = Some (''sub'', ''x.pdf'') \<and>
   parse_path ex_row3 = None \<and>
   index_step (Map.empty, {}) ex_row3 = (Map.empty, {})"
proof -
  have 1: "row_path ex_row1 = PyStr (''storage'' @ CHR '':'' # ''a.pdf'')"
    and 2: "row_path ex_row2 = PyStr (''attachments'' @ CHR '':'' # (''sub'' @ [CHR 0x5C] @ ''dir/x.pdf''))"
    by (simp_all add: ex_row1_def ex_row2_def)
  have 3: "\<forall>s. row_path ex_row3 = PyStr s \<longrightarrow> CHR '':'' \<notin> set s"
    by (simp add: ex_row3_def)
  have "parse_path ex_row1 = Some (''AB12CD'', ''a.pdf'')"
    using C4_database_index_parsing [where r = ex_row1 and pre = "''storage''" and rest = "''a.pdf''"] 1
    by (simp add: ex_row1_def)
  moreover have "parse_path ex_row2 = Some (''sub'', ''x.pdf'')"
    using C4_database_index_parsing
      [where r = ex_row2 and pre = "''attachments''" and rest = "''sub'' @ [CHR 0x5C] @ ''dir/x.pdf''"] 2
    by (simp add: py_replace_def)
  moreover have "parse_path ex_row3 = None \<and> index_step (Map.empty, {}) ex_row3 = (Map.empty, {})"
    using C4_database_index_parsing [where r = ex_row3 and st = "(Map.empty, {})"] 3
    by blast
  ultimately show ?thesis by simp
qed

section \<open>The storage tree seen by the Folder Pruner\<close>

text \<open>
  The Folder Pruner sees the storage root as a tree. A node is a file, or a directory with
  its entries in listing order and a flag \<open>denied\<close>: listing a denied directory raises
  \<open>PermissionError\<close>. A path is the list of names below the storage root; \<open>lookup\<close> and
  \<open>remove\<close> address the first entry of a name.

  The system calls are modelled by what the Python library documents.
  \<^item> \<open>os.listdir\<close> raises on a missing path, on a file and on a denied directory.
  \<^item> \<open>os.walk\<close> is called without \<open>onerror\<close>: it ignores the errors of listing, so a
    denied directory contributes no triple and the walk itself does not raise. Its result has
    the type of a call that may raise, and \<open>has_pdf_files\<close> keeps its handler.
  \<^item> \<open>os.rmdir\<close> raises on a directory that has any entry.
  \<^item> \<open>shutil.rmtree\<close> has to list every directory it removes and raises when the subtree
    holds a denied directory; the tree is left as it was then (what it removed before the
    failure is not modelled). The calls of \<open>remove_readonly\<close> swallow their errors and change
    permission bits only, which are not part of the tree.
\<close>

datatype node = File string | Dir string bool "node list"

fun node_name :: "node \<Rightarrow> string" where
  "node_name (File n) = n"
| "node_name (Dir n denied cs) = n"

fun is_dir :: "node \<Rightarrow> bool" where
  "is_dir (File n) = False"
| "is_dir (Dir n denied cs) = True"

type_synonym path = "string list"

fun lookup :: "node list \<Rightarrow> path \<Rightarrow> node option" where
  "lookup es [] = None"
| "lookup [] (n # p) = None"
| "lookup (c # es) (n # p) =
     (if node_name c = n
      then (if p = [] then Some c
            else (case c of Dir nm denied cs \<Rightarrow> lookup cs p | File nm \<Rightarrow> None))
      else lookup es (n # p))"

fun remove :: "node list \<Rightarrow> path \<Rightarrow> node list" where
  "remove es [] = es"
| "remove [] (n # p) = []"
| "remove (c # es) (n # p) =
     (if node_name c = n
      then (if p = [] then es
            else (case c of Dir nm denied cs \<Rightarrow> Dir nm denied (remove cs p) # es
                          | File nm \<Rightarrow> c # es))
      else c # remove es (n # p))"

definition os_listdir :: "node list \<Rightarrow> path \<Rightarrow> os_error + string list" where
  "os_listdir fs p =
     (case lookup fs p of
        None \<Rightarrow> Inl FileNotFoundError
      | Some (File nm) \<Rightarrow> Inl NotADirectoryError
      | Some (Dir nm denied cs) \<Rightarrow> if denied then Inl PermissionError else Inr (map node_name cs))"

type_synonym triple = "path \<times> string list \<times> string list"

fun walk :: "path \<Rightarrow> node \<Rightarrow> triple list" where
  "walk root (File nm) = []"
| "walk root (Dir nm denied cs) =
     (if denied then []
      else (root, map node_name (filter is_dir cs), map node_name (filter (\<lambda>c. \<not> is_dir c) cs))
           # concat (map (\<lambda>c. walk (root @ [node_name c]) c) (filter is_dir cs)))"

fun walk_up :: "path \<Rightarrow> node \<Rightarrow> triple list" where
  "walk_up root (File nm) = []"
| "walk_up root (Dir nm denied cs) =
     (if denied then []
      else concat (map (\<lambda>c. walk_up (root @ [node_name c]) c) (filter is_dir cs))
           @ [(root, map node_name (filter is_dir cs),
               map node_name (filter (\<lambda>c. \<not> is_dir c) cs))])"

definition os_walk :: "node list \<Rightarrow> path \<Rightarrow> os_error + triple list" where
  "os_walk fs p = Inr (case lookup fs p of None \<Rightarrow> [] | Some nd \<Rightarrow> walk p nd)"

definition os_rmdir :: "node list \<Rightarrow> path \<Rightarrow> os_error + node list" where
  "os_rmdir fs p =
     (case lookup fs p of
        None \<Rightarrow> Inl FileNotFoundError
      | Some (File nm) \<Rightarrow> Inl NotADirectoryError
      | Some (Dir nm denied cs) \<Rightarrow> if cs = [] then Inr (remove fs p) else Inl DirectoryNotEmpty)"

fun has_denied :: "node \<Rightarrow> bool" where
  "has_denied (File nm) = False"
| "has_denied (Dir nm denied cs) = (denied \<or> (\<exists>c\<in>set cs. has_denied c))"

definition shutil_rmtree :: "node list \<Rightarrow> path \<Rightarrow> os_error + node list" where
  "shutil_rmtree fs p =
     (case lookup fs p of
        None \<Rightarrow> Inl FileNotFoundError
      | Some (File nm) \<Rightarrow> Inl NotADirectoryError
      | Some (Dir nm denied cs) \<Rightarrow>
          if has_denied (Dir nm denied cs) then Inl PermissionError else Inr (remove fs p))"

section \<open>Folder Pruner\<close>

text \<open>
  \<open>empty_listing\<close> and \<open>pdf_in_walk\<close> are the bodies of \<open>is_folder_empty\<close> and
  \<open>has_pdf_files\<close> (lines 304-323) on the outcome of the system call, error included.
  \<open>check_folder\<close> is the body of the loop over \<open>folders_to_check\<close> (lines 373-392): both
  handlers print and go on, so an exception leaves the state as it was.
\<close>

definition artifacts :: "string list" where
  "artifacts = [''.DS_Store'', ''Thumbs.db'', ''desktop.ini'', ''.zotero-ft-cache'']"

definition empty_listing :: "os_error + string list \<Rightarrow> bool" where
  "empty_listing listing =
     (case listing of
        Inr items \<Rightarrow> length (filter (\<lambda>item. item \<notin> set artifacts) items) = 0
      | Inl e \<Rightarrow> False)"

definition is_folder_empty :: "node list \<Rightarrow> path \<Rightarrow> bool" where
  "is_folder_empty fs p = empty_listing (os_listdir fs p)"

definition pdf_in_walk :: "os_error + triple list \<Rightarrow> bool" where
  "pdf_in_walk w =
     (case w of
        Inr triples \<Rightarrow> list_ex (\<lambda>(root, dirs, files). list_ex is_pdf files) triples
      | Inl e \<Rightarrow> True)"

definition has_pdf_files :: "node list \<Rightarrow> path \<Rightarrow> bool" where
  "has_pdf_files fs p = pdf_in_walk (os_walk fs p)"

definition delete_folder_safe :: "node list \<Rightarrow> path \<Rightarrow> bool \<times> node list" where
  "delete_folder_safe fs dir_path =
     (case shutil_rmtree fs dir_path of
        Inr fs' \<Rightarrow> (True, fs')
      | Inl e \<Rightarrow> (False, fs))"

definition folders_to_check :: "node list \<Rightarrow> path list" where
  "folders_to_check fs =
     filter (\<lambda>dir_path. dir_path \<noteq> [])
       (concat (map (\<lambda>(root, dirs, files). map (\<lambda>dir_name. root @ [dir_name]) dirs)
                  (walk_up [] (Dir [] False fs))))"

definition path_basename :: "path \<Rightarrow> string" where
  "path_basename p = (if p = [] then [] else last p)"

type_synonym pruner_state = "node list \<times> nat \<times> nat \<times> bool"

definition check_folder :: "string set \<Rightarrow> pruner_state \<Rightarrow> path \<Rightarrow> pruner_state" where
  "check_folder db_folders st dir_path =
     (case st of (fs, empty_count, invalid_count, deleted) \<Rightarrow>
        (let folder_name = path_basename dir_path
         in if is_folder_empty fs dir_path
            then (case os_rmdir fs dir_path of
                    Inr fs' \<Rightarrow> (fs', empty_count + 1, invalid_count, True)
                  | Inl e \<Rightarrow> (fs, empty_count, invalid_count, deleted))
            else if \<not> has_pdf_files fs dir_path \<and> folder_name \<notin> db_folders
            then (case delete_folder_safe fs dir_path of
                    (True, fs') \<Rightarrow> (fs', empty_count, invalid_count + 1, True)
                  | (False, fs') \<Rightarrow> (fs, empty_count, invalid_count, deleted))
            else (fs, empty_count, invalid_count, deleted)))"

definition prune_pass :: "string set \<Rightarrow> node list \<times> nat \<times> nat \<Rightarrow> pruner_state" where
  "prune_pass db_folders st =
     (case st of (fs, empty_count, invalid_count) \<Rightarrow>
        foldl (check_folder db_folders) (fs, empty_count, invalid_count, False)
          (folders_to_check fs))"

text \<open>Measures and predicates used in the proofs.\<close>

fun ndirs_node :: "node \<Rightarrow> nat" where
  "ndirs_node (File nm) = 0"
| "ndirs_node (Dir nm denied cs) = Suc (sum_list (map ndirs_node cs))"

definition ndirs :: "node list \<Rightarrow> nat" where
  "ndirs es = sum_list (map ndirs_node es)"

fun pdf_in :: "node \<Rightarrow> bool" where
  "pdf_in (File nm) = is_pdf nm"
| "pdf_in (Dir nm denied cs) = (\<exists>c\<in>set cs. pdf_in c)"

definition removable :: "node \<Rightarrow> bool" where
  "removable nd = (is_dir nd \<and> \<not> has_denied nd \<and> \<not> pdf_in nd)"

section \<open>Properties of a pruning step\<close>



lemma file_names_pdf:
  "list_ex is_pdf (map node_name (filter (\<lambda>c. \<not> is_dir c) cs)) \<longleftrightarrow>
     (\<exists>c\<in>set cs. \<not> is_dir c \<and> pdf_in c)"
proof -
  have "\<not> is_dir c \<Longrightarrow> is_pdf (node_name c) = pdf_in c" for c
    by (cases c) simp_all
  then show ?thesis by (auto simp: list_ex_iff)
qed

lemma walk_pdf_in:
  "is_dir nd \<Longrightarrow> \<not> has_denied nd \<Longrightarrow>
     list_ex (\<lambda>(root, dirs, files). list_ex is_pdf files) (walk root nd) = pdf_in nd"
proof (induction nd arbitrary: root)
  case (File nm)
  then show ?case by simp
next
  case (Dir nm denied cs)
  from Dir.prems have nd: "\<not> denied" and sub: "\<And>c. c \<in> set cs \<Longrightarrow> \<not> has_denied c"
    by auto
  have rec: "list_ex (\<lambda>(root, dirs, files). list_ex is_pdf files) (walk r c) = pdf_in c"
    if "c \<in> set cs" "is_dir c" for c r
    using Dir.IH [OF that(1) that(2) sub [OF that(1)]] .
  define P :: "triple \<Rightarrow> bool" where "P = (\<lambda>(root, dirs, files). list_ex is_pdf files)"
  have "list_ex P (t # concat (map g xs)) \<longleftrightarrow> P t \<or> (\<exists>c\<in>set xs. list_ex P (g c))"
    for t g and xs :: "node list"
    by (auto simp: list_ex_iff)
  then have "list_ex P (walk root (Dir nm denied cs)) \<longleftrightarrow>
      P (root, map node_name (filter is_dir cs), map node_name (filter (\<lambda>c. \<not> is_dir c) cs)) \<or>
      (\<exists>c\<in>set (filter is_dir cs). list_ex P (walk (root @ [node_name c]) c))"
    using nd by simp
  then have "list_ex (\<lambda>(root, dirs, files). list_ex is_pdf files) (walk root (Dir nm denied cs)) \<longleftrightarrow>
      list_ex is_pdf (map node_name (filter (\<lambda>c. \<not> is_dir c) cs)) \<or>
      (\<exists>c\<in>set cs. is_dir c \<and>
         list_ex (\<lambda>(root, dirs, files). list_ex is_pdf files) (walk (root @ [node_name c]) c))"
    unfolding P_def by auto
  also have "\<dots> \<longleftrightarrow> (\<exists>c\<in>set cs. \<not> is_dir c \<and> pdf_in c) \<or> (\<exists>c\<in>set cs. is_dir c \<and> pdf_in c)"
    unfolding file_names_pdf using rec by blast
  also have "\<dots> \<longleftrightarrow> pdf_in (Dir nm denied cs)"
    by auto
  finally show ?case .
qed

text \<open>What one step of the loop over \<open>folders_to_check\<close> can do.\<close>

lemma check_folder_cases:
  assumes "check_folder db_folders (fs, ec, ic, deleted) q = (fs', ec', ic', deleted')"
  shows "(fs' = fs \<and> ec' = ec \<and> ic' = ic \<and> deleted' = deleted) \<or>
         (\<exists>nd. lookup fs q = Some nd \<and> removable nd \<and> fs' = remove fs q \<and> deleted' \<and>
               ec' + ic' = Suc (ec + ic))"
proof (cases "is_folder_empty fs q")
  case True
  show ?thesis
  proof (cases "os_rmdir fs q")
    case (Inl e)
    with True assms show ?thesis by (simp add: check_folder_def)
  next
    case (Inr fs2)
    then obtain nm denied where l: "lookup fs q = Some (Dir nm denied [])" and r: "fs2 = remove fs q"
      by (auto simp: os_rmdir_def split: option.splits node.splits if_splits)
    from True l have "\<not> denied"
      by (auto simp: is_folder_empty_def os_listdir_def empty_listing_def split: if_splits)
    then have "removable (Dir nm denied [])" by (simp add: removable_def)
    with True Inr assms l r show ?thesis by (auto simp: check_folder_def)
  qed
next
  case False
  show ?thesis
  proof (cases "\<not> has_pdf_files fs q \<and> path_basename q \<notin> db_folders")
    case f: False
    with False assms show ?thesis by (auto simp: check_folder_def)
  next
    case t: True
    show ?thesis
    proof (cases "shutil_rmtree fs q")
      case (Inl e)
      with False t assms show ?thesis by (simp add: check_folder_def delete_folder_safe_def)
    next
      case (Inr fs2)
      then obtain nm denied cs where l: "lookup fs q = Some (Dir nm denied cs)"
        and d: "\<not> has_denied (Dir nm denied cs)" and r: "fs2 = remove fs q"
        by (auto simp: shutil_rmtree_def split: option.splits node.splits if_splits)
      from t l have "\<not> list_ex (\<lambda>(root, dirs, files). list_ex is_pdf files) (walk q (Dir nm denied cs))"
        by (simp add: has_pdf_files_def os_walk_def pdf_in_walk_def)
      with d have "\<not> pdf_in (Dir nm denied cs)"
        using walk_pdf_in [of "Dir nm denied cs" q] by simp
      with d have "removable (Dir nm denied cs)" by (simp add: removable_def)
      with False t Inr assms l r show ?thesis
        by (auto simp: check_folder_def delete_folder_safe_def)
    qed
  qed
qed




lemma ndirs_Cons: "ndirs (c # es) = ndirs_node c + ndirs es"
  by (simp add: ndirs_def)

lemma ndirs_Nil: "ndirs [] = 0"
  by (simp add: ndirs_def)

lemma ndirs_node_Dir: "ndirs_node (Dir nm denied cs) = Suc (ndirs cs)"
  by (simp add: ndirs_def)

lemma ndirs_remove_less:
  "lookup es q = Some nd \<Longrightarrow> is_dir nd \<Longrightarrow> ndirs (remove es q) < ndirs es"
proof (induction es q rule: remove.induct)
  case (1 es)
  then show ?case by simp
next
  case (2 n p)
  then show ?case by simp
next
  case (3 c es n p)
  show ?case
  proof (cases "node_name c = n")
    case False
    with 3 show ?thesis by (simp add: ndirs_Cons)
  next
    case True
    show ?thesis
    proof (cases "p = []")
      case pe: True
      with True 3(3,4) show ?thesis
        by (cases c) (auto simp: ndirs_Cons)
    next
      case pne: False
      with True 3(3) obtain dn dd cs where c: "c = Dir dn dd cs" and l: "lookup cs p = Some nd"
        by (cases c) auto
      from 3(1) [OF True pne c l 3(4)] True pne c show ?thesis
        by (simp add: ndirs_Cons ndirs_def)
    qed
  qed
qed

lemma check_folder_ndirs:
  assumes "check_folder db_folders (fs, ec, ic, deleted) q = (fs', ec', ic', deleted')"
  shows "ndirs fs' \<le> ndirs fs \<and> (deleted' \<and> \<not> deleted \<longrightarrow> ndirs fs' < ndirs fs) \<and>
         (\<not> deleted' \<longrightarrow> fs' = fs \<and> ec' = ec \<and> ic' = ic \<and> \<not> deleted)"
  using check_folder_cases [OF assms]
  by (auto simp: removable_def dest: ndirs_remove_less less_imp_le)

text \<open>A pass: the flag is raised exactly when a folder has gone.\<close>

lemma pass_loop_ndirs:
  assumes "foldl (check_folder db_folders) (fs, ec, ic, deleted) qs = (fs', ec', ic', deleted')"
  shows "ndirs fs' \<le> ndirs fs \<and> (deleted' \<and> \<not> deleted \<longrightarrow> ndirs fs' < ndirs fs) \<and>
         (\<not> deleted' \<longrightarrow> fs' = fs \<and> ec' = ec \<and> ic' = ic \<and> \<not> deleted)"
  using assms
proof (induction qs arbitrary: fs ec ic deleted)
  case Nil
  then show ?case by simp
next
  case (Cons q qs)
  obtain fs1 ec1 ic1 d1 where s: "check_folder db_folders (fs, ec, ic, deleted) q = (fs1, ec1, ic1, d1)"
    by (cases "check_folder db_folders (fs, ec, ic, deleted) q") auto
  from Cons.prems s have "foldl (check_folder db_folders) (fs1, ec1, ic1, d1) qs = (fs', ec', ic', deleted')"
    by simp
  from Cons.IH [OF this] check_folder_ndirs [OF s] show ?case
    by auto
qed

section \<open>The pruning loop\<close>

lemma prune_pass_ndirs:
  assumes "prune_pass db_folders (fs, ec, ic) = (fs', ec', ic', deleted')"
  shows "ndirs fs' \<le> ndirs fs \<and> (deleted' \<longrightarrow> ndirs fs' < ndirs fs) \<and>
         (\<not> deleted' \<longrightarrow> fs' = fs \<and> ec' = ec \<and> ic' = ic)"
  using pass_loop_ndirs [of db_folders fs ec ic False "folders_to_check fs" fs' ec' ic' deleted'] assms
  by (simp add: prune_pass_def)

text \<open>
  The loop \<open>while deleted\<close> (lines 360-392), entered with \<open>deleted = True\<close>. It ends because
  a pass that raises the flag has removed a directory.
\<close>

function prune_loop :: "string set \<Rightarrow> pruner_state \<Rightarrow> node list \<times> nat \<times> nat" where
  "prune_loop db_folders (fs, empty_count, invalid_count, deleted) =
     (if deleted
      then prune_loop db_folders (prune_pass db_folders (fs, empty_count, invalid_count))
      else (fs, empty_count, invalid_count))"
  by pat_completeness auto
termination
proof (relation "measure (\<lambda>(db_folders, fs, empty_count, invalid_count, deleted).
    2 * ndirs fs + (if deleted then 1 else 0))", goal_cases)
  case 1
  show ?case by simp
next
  case (2 db_folders fs empty_count invalid_count deleted)
  obtain fs' ec' ic' deleted' where
    p: "prune_pass db_folders (fs, empty_count, invalid_count) = (fs', ec', ic', deleted')"
    by (cases "prune_pass db_folders (fs, empty_count, invalid_count)") auto
  from prune_pass_ndirs [OF p] 2 show ?case
    by (auto simp: p)
qed

declare prune_loop.simps [simp del]

definition clean_empty_folders :: "node list \<Rightarrow> string set \<Rightarrow> nat \<times> node list" where
  "clean_empty_folders storage_dir db_folders =
     (case prune_loop db_folders (storage_dir, 0, 0, True) of
        (fs, empty_count, invalid_count) \<Rightarrow> (empty_count + invalid_count, fs))"







section \<open>Properties of the Folder Pruner\<close>









lemma check_folder_artifacts_only:
  assumes "lookup fs q = Some (Dir dn False (c # cs))"
    and "\<forall>x\<in>set (c # cs). node_name x \<in> set artifacts"
  shows "is_folder_empty fs q" and "os_rmdir fs q = Inl DirectoryNotEmpty"
    and "check_folder db_folders (fs, ec, ic, deleted) q = (fs, ec, ic, deleted)"
proof -
  from assms(2) have "filter (\<lambda>item. item \<notin> set artifacts) (map node_name (c # cs)) = []"
    by (auto simp: filter_empty_conv)
  with assms(1) show e: "is_folder_empty fs q"
    by (simp add: is_folder_empty_def empty_listing_def os_listdir_def)
  from assms(1) show r: "os_rmdir fs q = Inl DirectoryNotEmpty"
    by (simp add: os_rmdir_def)
  from e r show "check_folder db_folders (fs, ec, ic, deleted) q = (fs, ec, ic, deleted)"
    by (simp add: check_folder_def)
qed




text \<open>
  Claim C3 fails on the code. A folder that can be listed and whose entries are all artifact
  files, with at least one entry, is classified as empty; \<open>os.rmdir\<close> then raises because
  the folder is not empty, the handler prints, and the folder stays. The second branch is not
  tried.
\<close>

theorem C3_artifact_only_folder_stays:
  "lookup fs q = Some (Dir dn False (c # cs)) \<and>
   (\<forall>x\<in>set (c # cs). node_name x \<in> set artifacts) \<longrightarrow>
     is_folder_empty fs q \<and> os_rmdir fs q = Inl DirectoryNotEmpty \<and>
     check_folder db_folders (fs, ec, ic, deleted) q = (fs, ec, ic, deleted)"
proof
  assume a: "lookup fs q = Some (Dir dn False (c # cs)) \<and>
    (\<forall>x\<in>set (c # cs). node_name x \<in> set artifacts)"
  then have l: "lookup fs q = Some (Dir dn False (c # cs))"
    and b: "\<forall>x\<in>set (c # cs). node_name x \<in> set artifacts" by simp_all
  from check_folder_artifacts_only [OF l b]
  show "is_folder_empty fs q \<and> os_rmdir fs q = Inl DirectoryNotEmpty \<and>
     check_folder db_folders (fs, ec, ic, deleted) q = (fs, ec, ic, deleted)"
    by simp
qed

theorem C3_witness:
  "is_folder_empty [Dir ''EMPTY1'' False [File ''.DS_Store'']] [''EMPTY1''] \<and>
   os_rmdir [Dir ''EMPTY1'' False [File ''.DS_Store'']] [''EMPTY1''] = Inl DirectoryNotEmpty \<and>
   clean_empty_folders [Dir ''EMPTY1'' False [File ''.DS_Store'']] {}
     = (0, [Dir ''EMPTY1'' False [File ''.DS_Store'']])"
proof -
  have 1: "lookup [Dir ''EMPTY1'' False [File ''.DS_Store'']] [''EMPTY1'']
      = Some (Dir ''EMPTY1'' False (File ''.DS_Store'' # []))"
    by simp
  have 2: "\<forall>x\<in>set (File ''.DS_Store'' # []). node_name x \<in> set artifacts"
    by (simp add: artifacts_def)
  have 3: "clean_empty_folders [Dir ''EMPTY1'' False [File ''.DS_Store'']] {}
     = (0, [Dir ''EMPTY1'' False [File ''.DS_Store'']])"
    by code_simp
  from C3_artifact_only_folder_stays
      [where fs = "[Dir ''EMPTY1'' False [File ''.DS_Store'']]" and q = "[''EMPTY1'']"
         and dn = "''EMPTY1''" and c = "File ''.DS_Store''" and cs = "[]"
         and db_folders = "{}" and ec = 0 and ic = 0 and deleted = False] 1 2
  have "is_folder_empty [Dir ''EMPTY1'' False [File ''.DS_Store'']] [''EMPTY1''] \<and>
   os_rmdir [Dir ''EMPTY1'' False [File ''.DS_Store'']] [''EMPTY1''] = Inl DirectoryNotEmpty"
    by blast
  with 3 show ?thesis by simp
qed





end
